theory Spec2Isabelle
  imports Main
begin

section \<open>Message frames\<close>

text \<open>
  Both programs include \<^verbatim>\<open>server/include/message.h\<close>, which declares \<^verbatim>\<open>ChatMessage\<close>
  with its constants \<^verbatim>\<open>header_length\<close> and \<^verbatim>\<open>max_body_length\<close>. The header file is not
  among the sources at hand, so the frame codec is written down from the specification,
  and the two constants are parameters \<open>hl\<close> and \<open>mbl\<close> of everything that uses them.
\<close>

definition space :: char where
  "space = CHR 0x20"

definition newline :: char where
  "newline = CHR 0x0A"

definition NUL :: char where
  "NUL = CHR 0x00"

definition is_digit :: "char \<Rightarrow> bool" where
  "is_digit c = (48 \<le> (of_char c :: nat) \<and> (of_char c :: nat) \<le> 57)"

definition digit_char :: "nat \<Rightarrow> char" where
  "digit_char d = char_of (48 + d)"

definition digit_val :: "char \<Rightarrow> nat" where
  "digit_val c = of_char c - 48"

text \<open>
  Modelled from the spec: the decimal text of a non-negative integer, most significant
  digit first, and the number a run of digits denotes.
\<close>

fun decimal :: "nat \<Rightarrow> string" where
  "decimal n = (if n < 10 then [digit_char n] else decimal (n div 10) @ [digit_char (n mod 10)])"

declare decimal.simps [simp del]

definition parse_decimal :: "string \<Rightarrow> nat" where
  "parse_decimal ds = foldl (\<lambda>a c. 10 * a + digit_val c) 0 ds"

datatype codec_error = InvalidHeader

text \<open>
  Modelled from the spec: \<^verbatim>\<open>encode_header\<close> of the absent \<^verbatim>\<open>message.h\<close>. The body
  length is rendered as decimal text of fixed width \<open>hl\<close>, padded on the left; of a text
  that is too wide only the first \<open>hl\<close> characters fit into the header.
\<close>

definition encode_header :: "nat \<Rightarrow> nat \<Rightarrow> string" where
  "encode_header hl b = take hl (replicate (hl - length (decimal b)) space @ decimal b)"

text \<open>
  Modelled from the spec: a header is numeric when, behind its padding, it is a non-empty
  run of decimal digits; its value is the number these digits denote.
\<close>

definition header_digits :: "string \<Rightarrow> string" where
  "header_digits h = dropWhile (\<lambda>c. c = space) h"

definition numeric :: "string \<Rightarrow> bool" where
  "numeric h = (header_digits h \<noteq> [] \<and> list_all is_digit (header_digits h))"

definition header_value :: "string \<Rightarrow> nat" where
  "header_value h = parse_decimal (header_digits h)"

text \<open>
  Modelled from the spec: \<^verbatim>\<open>decode_header\<close> of the absent \<^verbatim>\<open>message.h\<close>. It parses
  the header text as a non-negative integer and fails if the text is not numeric or if
  the parsed value exceeds \<open>mbl\<close>.
\<close>

definition decode_header :: "nat \<Rightarrow> string \<Rightarrow> codec_error + nat" where
  "decode_header mbl h =
     (if numeric h
      then (if header_value h \<le> mbl then Inr (header_value h) else Inl InvalidHeader)
      else Inl InvalidHeader)"

text \<open>
  Modelled from the spec: the \<^verbatim>\<open>ChatMessage\<close> frame of the absent \<^verbatim>\<open>message.h\<close>:
  a header of \<open>hl\<close> bytes, a body, and the body length. A frame is constructed empty and
  populated field by field (body length set, body bytes copied, header encoded).
  Isabelle names cannot end in an underscore, so the members \<^verbatim>\<open>room_\<close>,
  \<^verbatim>\<open>write_msgs_\<close>, ... of the source are the fields \<open>room\<close>, \<open>write_msgs\<close>, ... here.
\<close>

record ChatMessage =
  header :: string
  body :: string
  body_length :: nat

text \<open>
  Modelled from the spec: the members of \<^verbatim>\<open>ChatMessage\<close> the programs call: the
  constructor, the setter \<^verbatim>\<open>body_length(n)\<close>, \<^verbatim>\<open>encode_header()\<close>, which writes the
  header for the current body length, and \<^verbatim>\<open>decode_header()\<close>, which on success stores
  the decoded body length.
\<close>

definition ChatMessage_new :: ChatMessage where
  "ChatMessage_new = \<lparr>header = [], body = [], body_length = 0\<rparr>"

definition set_body_length :: "nat \<Rightarrow> ChatMessage \<Rightarrow> ChatMessage" where
  "set_body_length n m = m\<lparr>body_length := n\<rparr>"

definition ChatMessage_encode_header :: "nat \<Rightarrow> ChatMessage \<Rightarrow> ChatMessage" where
  "ChatMessage_encode_header hl m = m\<lparr>header := encode_header hl (body_length m)\<rparr>"

definition ChatMessage_decode_header :: "nat \<Rightarrow> ChatMessage \<Rightarrow> codec_error + ChatMessage" where
  "ChatMessage_decode_header mbl m =
     (case decode_header mbl (header m) of
        Inl e \<Rightarrow> Inl e
      | Inr n \<Rightarrow> Inr (m\<lparr>body_length := n\<rparr>))"

section \<open>Sockets and asynchronous operations\<close>

text \<open>
  The programs never block: \<^verbatim>\<open>async_read\<close> and \<^verbatim>\<open>async_write\<close> only start an operation
  on the socket, and the reactor later calls the bound handler with the operation's error
  code. A socket is modelled by the operations outstanding on it, oldest first, and by
  the frames whose write has completed without error, in the order of completion. An
  outstanding write holds the frame at the front of the queue it was started for (the
  buffer is a reference into the deque; the front is not modified while the write is
  outstanding). \<open>closes\<close> counts how often the socket has been closed: closing an
  open socket closes it, on a closed socket there is nothing to close.
\<close>

datatype read_op = ReadHeader | ReadBody nat

record tcp_socket =
  is_open :: bool
  reads :: "read_op list"
  writes :: "ChatMessage list"
  wire :: "ChatMessage list"
  closes :: nat

definition socket_new :: tcp_socket where
  "socket_new = \<lparr>is_open = False, reads = [], writes = [], wire = [], closes = 0\<rparr>"

definition async_read :: "read_op \<Rightarrow> tcp_socket \<Rightarrow> tcp_socket" where
  "async_read op sock = sock\<lparr>reads := reads sock @ [op]\<rparr>"

definition async_write :: "ChatMessage \<Rightarrow> tcp_socket \<Rightarrow> tcp_socket" where
  "async_write m sock = sock\<lparr>writes := writes sock @ [m]\<rparr>"

definition socket_close :: "tcp_socket \<Rightarrow> tcp_socket" where
  "socket_close sock =
     (if is_open sock then sock\<lparr>is_open := False, closes := Suc (closes sock)\<rparr> else sock)"

section \<open>The server: room, sessions, acceptor\<close>

text \<open>
  \<^verbatim>\<open>std::set< chatParticipantPTR >\<close> orders the participants by pointer value and keeps
  each once: a strictly increasing list of pointer identities (natural numbers).
\<close>

definition std_set :: "nat list \<Rightarrow> bool" where
  "std_set xs = (sorted xs \<and> distinct xs)"

definition set_insert :: "nat \<Rightarrow> nat list \<Rightarrow> nat list" where
  "set_insert p xs = (if p \<in> set xs then xs else insort p xs)"

definition set_erase :: "nat \<Rightarrow> nat list \<Rightarrow> nat list" where
  "set_erase p xs = removeAll p xs"

record ChatRoom =
  participants :: "nat list"
  recent_msgs :: "ChatMessage list"

definition max_recent_msgs :: nat where
  "max_recent_msgs = 100"

record ChatSession =
  socket :: tcp_socket
  read_msg :: ChatMessage
  write_msgs :: "ChatMessage list"

definition ChatSession_new :: ChatSession where
  "ChatSession_new = \<lparr>socket = socket_new, read_msg = ChatMessage_new, write_msgs = []\<rparr>"

text \<open>
  A \<^verbatim>\<open>ChatServer\<close> owns its \<^verbatim>\<open>room_\<close>; every session it creates is constructed with a
  reference to that room. The state of one server is its room, the session objects it
  has created (by pointer identity), and the session bound to the outstanding
  \<^verbatim>\<open>async_accept\<close>.
\<close>

record ChatServer =
  acceptor :: nat
  room :: ChatRoom
  sessions :: "nat \<Rightarrow> ChatSession"
  allocated :: nat
  new_session :: nat

definition upd_session :: "nat \<Rightarrow> (ChatSession \<Rightarrow> ChatSession) \<Rightarrow> ChatServer \<Rightarrow> ChatServer" where
  "upd_session p f srv = srv\<lparr>sessions := (sessions srv)(p := f (sessions srv p))\<rparr>"

definition upd_room :: "(ChatRoom \<Rightarrow> ChatRoom) \<Rightarrow> ChatServer \<Rightarrow> ChatServer" where
  "upd_room f srv = srv\<lparr>room := f (room srv)\<rparr>"

text \<open>\<^verbatim>\<open>ChatSession::deliver\<close>: enqueue, and start a write if none is in progress.\<close>

definition ChatSession_deliver :: "ChatMessage \<Rightarrow> ChatSession \<Rightarrow> ChatSession" where
  "ChatSession_deliver msg ses =
     (let write_in_progress = (write_msgs ses \<noteq> []);
          ses1 = ses\<lparr>write_msgs := write_msgs ses @ [msg]\<rparr>
      in if \<not> write_in_progress
         then ses1\<lparr>socket := async_write (hd (write_msgs ses1)) (socket ses1)\<rparr>
         else ses1)"

text \<open>\<^verbatim>\<open>std::for_each\<close> over a range of messages, bound to one participant's \<^verbatim>\<open>deliver\<close>.\<close>

definition replay :: "ChatMessage list \<Rightarrow> ChatSession \<Rightarrow> ChatSession" where
  "replay ms ses = foldl (\<lambda>s m. ChatSession_deliver m s) ses ms"

text \<open>\<^verbatim>\<open>ChatRoom::join\<close>: insert, then replay the recent messages to the participant.\<close>

definition ChatRoom_join :: "nat \<Rightarrow> ChatServer \<Rightarrow> ChatServer" where
  "ChatRoom_join participant srv =
     (let srv1 = upd_room (\<lambda>r. r\<lparr>participants := set_insert participant (participants r)\<rparr>) srv
      in foldl (\<lambda>s msg. upd_session participant (ChatSession_deliver msg) s) srv1
           (recent_msgs (room srv1)))"

definition ChatRoom_leave :: "nat \<Rightarrow> ChatServer \<Rightarrow> ChatServer" where
  "ChatRoom_leave participant srv =
     upd_room (\<lambda>r. r\<lparr>participants := set_erase participant (participants r)\<rparr>) srv"

text \<open>The loop \<^verbatim>\<open>while (recent_msgs_.size() > max_recent_msgs) recent_msgs_.pop_front();\<close>\<close>

function pop_excess :: "'a list \<Rightarrow> 'a list" where
  "pop_excess ms = (if length ms > max_recent_msgs then pop_excess (tl ms) else ms)"
  by pat_completeness auto
termination
  by (relation "measure length") (auto simp: max_recent_msgs_def)

declare pop_excess.simps [simp del]

text \<open>
  \<^verbatim>\<open>ChatRoom::deliver\<close>: append to the recent messages, drop the excess at the front, then
  call \<^verbatim>\<open>deliver\<close> on every participant in the order of the set. (The line written to
  \<^verbatim>\<open>std::cout\<close> is not part of the state.)
\<close>

definition ChatRoom_deliver :: "ChatMessage \<Rightarrow> ChatServer \<Rightarrow> ChatServer" where
  "ChatRoom_deliver msg srv =
     (let srv1 = upd_room (\<lambda>r. r\<lparr>recent_msgs := recent_msgs r @ [msg]\<rparr>) srv;
          srv2 = upd_room (\<lambda>r. r\<lparr>recent_msgs := pop_excess (recent_msgs r)\<rparr>) srv1
      in foldl (\<lambda>s p. upd_session p (ChatSession_deliver msg) s) srv2
           (participants (room srv2)))"

text \<open>A sequence of calls of \<^verbatim>\<open>ChatRoom::deliver\<close>, one per message, in order.\<close>

definition deliver_all :: "ChatMessage list \<Rightarrow> ChatServer \<Rightarrow> ChatServer" where
  "deliver_all ms srv = foldl (\<lambda>s m. ChatRoom_deliver m s) srv ms"

text \<open>\<^verbatim>\<open>ChatSession::start\<close>: join the room, then issue the first header read.\<close>

definition ChatSession_start :: "nat \<Rightarrow> ChatServer \<Rightarrow> ChatServer" where
  "ChatSession_start this srv =
     upd_session this (\<lambda>s. s\<lparr>socket := async_read ReadHeader (socket s)\<rparr>)
       (ChatRoom_join this srv)"

text \<open>
  \<^verbatim>\<open>ChatSession::handle_read_header\<close>. The condition \<^verbatim>\<open>!error && read_msg_.decode_header()\<close>
  does not decode when the read failed.
\<close>

definition handle_read_header :: "nat \<Rightarrow> bool \<Rightarrow> nat \<Rightarrow> ChatServer \<Rightarrow> ChatServer" where
  "handle_read_header mbl error this srv =
     (if error then ChatRoom_leave this srv
      else (case ChatMessage_decode_header mbl (read_msg (sessions srv this)) of
              Inr m \<Rightarrow>
                upd_session this
                  (\<lambda>s. s\<lparr>read_msg := m,
                         socket := async_read (ReadBody (body_length m)) (socket s)\<rparr>) srv
            | Inl e \<Rightarrow> ChatRoom_leave this srv))"

definition handle_read_body :: "bool \<Rightarrow> nat \<Rightarrow> ChatServer \<Rightarrow> ChatServer" where
  "handle_read_body error this srv =
     (if \<not> error
      then upd_session this (\<lambda>s. s\<lparr>socket := async_read ReadHeader (socket s)\<rparr>)
             (ChatRoom_deliver (read_msg (sessions srv this)) srv)
      else ChatRoom_leave this srv)"

text \<open>
  \<^verbatim>\<open>ChatSession::handle_write\<close>. The handler is called for a write that was started for
  the front of the queue, so \<^verbatim>\<open>pop_front\<close> finds the queue non-empty.
\<close>

definition handle_write :: "bool \<Rightarrow> nat \<Rightarrow> ChatServer \<Rightarrow> ChatServer" where
  "handle_write error this srv =
     (if \<not> error
      then upd_session this
             (\<lambda>s. let s1 = s\<lparr>write_msgs := tl (write_msgs s)\<rparr>
                   in if write_msgs s1 \<noteq> []
                      then s1\<lparr>socket := async_write (hd (write_msgs s1)) (socket s1)\<rparr>
                      else s1) srv
      else ChatRoom_leave this srv)"

text \<open>
  \<^verbatim>\<open>ChatServer::start_accept\<close> creates the next session object and binds it to the
  outstanding accept; \<^verbatim>\<open>handle_accept\<close> starts the accepted session and accepts again.
\<close>

definition start_accept :: "ChatServer \<Rightarrow> ChatServer" where
  "start_accept srv =
     srv\<lparr>sessions := (sessions srv)(allocated srv := ChatSession_new),
         new_session := allocated srv,
         allocated := Suc (allocated srv)\<rparr>"

definition handle_accept :: "nat \<Rightarrow> bool \<Rightarrow> ChatServer \<Rightarrow> ChatServer" where
  "handle_accept session error srv =
     start_accept (if \<not> error then ChatSession_start session srv else srv)"

definition ChatServer_new :: "nat \<Rightarrow> ChatServer" where
  "ChatServer_new endpoint =
     start_accept
       \<lparr>acceptor = endpoint,
        room = \<lparr>participants = [], recent_msgs = []\<rparr>,
        sessions = (\<lambda>p. ChatSession_new),
        allocated = 0,
        new_session = 0\<rparr>"

text \<open>
  The server's \<^verbatim>\<open>main\<close>: without a port it prints the usage and returns 1; otherwise it
  creates one \<^verbatim>\<open>ChatServer\<close> per port argument, in order, and runs the reactor.
\<close>

datatype exit_code = Usage

definition server_main :: "nat list \<Rightarrow> exit_code + ChatServer list" where
  "server_main ports = (if ports = [] then Inl Usage else Inr (map ChatServer_new ports))"

subsection \<open>Completions delivered by the reactor\<close>

text \<open>
  The contract of the asynchronous operations: a completion finishes the oldest
  outstanding operation of its kind and then calls the handler bound to it. A read that
  succeeds has filled the buffer it was given (the header or the body of \<^verbatim>\<open>read_msg_\<close>);
  a write that succeeds has put its frame on the wire; an accept that succeeds has
  opened the session's socket. Without an outstanding operation there is nothing to
  complete. \<open>read_complete\<close>, \<open>write_complete\<close> and \<open>accept_complete\<close> are a completion
  up to the return of its handler; what the reactor does after the return is \<open>release\<close>
  below, and \<open>server_step\<close> is the whole completion.
\<close>

datatype io_result = Failed | Done string

definition read_complete :: "nat \<Rightarrow> io_result \<Rightarrow> nat \<Rightarrow> ChatServer \<Rightarrow> ChatServer" where
  "read_complete mbl res this srv =
     (case reads (socket (sessions srv this)) of
        [] \<Rightarrow> srv
      | op # ops \<Rightarrow>
          (let srv1 = upd_session this (\<lambda>s. s\<lparr>socket := (socket s)\<lparr>reads := ops\<rparr>\<rparr>) srv
           in case op of
                ReadHeader \<Rightarrow>
                  (case res of
                     Failed \<Rightarrow> handle_read_header mbl True this srv1
                   | Done bytes \<Rightarrow>
                       handle_read_header mbl False this
                         (upd_session this
                            (\<lambda>s. s\<lparr>read_msg := (read_msg s)\<lparr>header := bytes\<rparr>\<rparr>) srv1))
              | ReadBody n \<Rightarrow>
                  (case res of
                     Failed \<Rightarrow> handle_read_body True this srv1
                   | Done bytes \<Rightarrow>
                       handle_read_body False this
                         (upd_session this
                            (\<lambda>s. s\<lparr>read_msg := (read_msg s)\<lparr>body := bytes\<rparr>\<rparr>) srv1))))"

definition write_complete :: "bool \<Rightarrow> nat \<Rightarrow> ChatServer \<Rightarrow> ChatServer" where
  "write_complete error this srv =
     (case writes (socket (sessions srv this)) of
        [] \<Rightarrow> srv
      | m # ms \<Rightarrow>
          handle_write error this
            (upd_session this
               (\<lambda>s. s\<lparr>socket := (socket s)\<lparr>writes := ms,
                         wire := (if error then wire (socket s) else wire (socket s) @ [m])\<rparr>\<rparr>)
               srv))"

definition accept_complete :: "bool \<Rightarrow> ChatServer \<Rightarrow> ChatServer" where
  "accept_complete error srv =
     handle_accept (new_session srv) error
       (if error then srv
        else upd_session (new_session srv) (\<lambda>s. s\<lparr>socket := (socket s)\<lparr>is_open := True\<rparr>\<rparr>) srv)"

subsection \<open>The lifetime of a session\<close>

text \<open>
  A session is held by \<^verbatim>\<open>boost::shared_ptr\<close> only. Its owners are the room's participant
  set, the handlers of its outstanding reads and writes (each is bound to
  \<^verbatim>\<open>shared_from_this()\<close>), and the handler of the outstanding accept (bound to
  \<^verbatim>\<open>new_session\<close>). A handler that runs is an owner until it has returned; the reactor
  then destroys it. With its last owner the session is destroyed: the destructor
  destroys \<^verbatim>\<open>write_msgs_\<close>, so the queue is dropped, and \<^verbatim>\<open>socket_\<close>, which closes the
  socket.
\<close>

definition owned :: "nat \<Rightarrow> ChatServer \<Rightarrow> bool" where
  "owned p srv =
     (p \<in> set (participants (room srv)) \<or>
      reads (socket (sessions srv p)) \<noteq> [] \<or>
      writes (socket (sessions srv p)) \<noteq> [] \<or>
      new_session srv = p)"

definition destroy :: "ChatSession \<Rightarrow> ChatSession" where
  "destroy ses = ses\<lparr>write_msgs := [], socket := socket_close (socket ses)\<rparr>"

definition release :: "nat \<Rightarrow> ChatServer \<Rightarrow> ChatServer" where
  "release p srv = (if owned p srv then srv else upd_session p destroy srv)"

text \<open>
  A completion as a whole: the handler is called and, after its return, destroyed. The
  handler of an accept is bound to the session the accept was started for.
\<close>

datatype completion = Accepted bool | ReadDone nat io_result | WriteDone nat bool

definition server_step :: "nat \<Rightarrow> ChatServer \<Rightarrow> completion \<Rightarrow> ChatServer" where
  "server_step mbl srv c =
     (case c of
        Accepted error \<Rightarrow> release (new_session srv) (accept_complete error srv)
      | ReadDone p res \<Rightarrow> release p (read_complete mbl res p srv)
      | WriteDone p error \<Rightarrow> release p (write_complete error p srv))"

text \<open>The reactor of the process serves all its servers; an event names the server it is for.\<close>

definition process_step :: "nat \<Rightarrow> ChatServer list \<Rightarrow> nat \<times> completion \<Rightarrow> ChatServer list" where
  "process_step mbl servers e =
     (case e of (i, c) \<Rightarrow>
        if i < length servers then servers[i := server_step mbl (servers ! i) c] else servers)"

definition io_service_run :: "nat \<Rightarrow> ChatServer list \<Rightarrow> (nat \<times> completion) list \<Rightarrow> ChatServer list" where
  "io_service_run mbl servers es = foldl (process_step mbl) servers es"

subsection \<open>A sample state\<close>

text \<open>
  Two frames, and a server whose room has the participants 1 and 2 and one message in
  its recent history; all its sessions are idle.
\<close>

definition hello :: ChatMessage where
  "hello = \<lparr>header = ''   5'', body = ''hello'', body_length = 5\<rparr>"

definition world :: ChatMessage where
  "world = \<lparr>header = ''   5'', body = ''world'', body_length = 5\<rparr>"

definition sample_server :: ChatServer where
  "sample_server =
     \<lparr>acceptor = 8000,
      room = \<lparr>participants = [1, 2], recent_msgs = [hello]\<rparr>,
      sessions = (\<lambda>p. ChatSession_new),
      allocated = 3,
      new_session = 3\<rparr>"

subsection \<open>Two sample runs\<close>

text \<open>
  \<open>idle_server\<close>: a server has accepted one connection. \<open>busy_server\<close>: a server accepts
  a connection and reads the frames \<open>hello\<close> and \<open>world\<close> from it; no write has completed
  yet. \<open>two_port_run\<close>: a process started with two ports
  accepts one connection on each and reads \<open>hello\<close> from the first.
\<close>

definition idle_server :: ChatServer where
  "idle_server = foldl (server_step 512) (ChatServer_new 8000) [Accepted False]"

definition busy_server :: ChatServer where
  "busy_server =
     foldl (server_step 512) (ChatServer_new 8000)
       [Accepted False,
        ReadDone 0 (Done ''   5''), ReadDone 0 (Done ''hello''),
        ReadDone 0 (Done ''   5''), ReadDone 0 (Done ''world'')]"

definition two_port_run :: "ChatServer list" where
  "two_port_run =
     io_service_run 512 [ChatServer_new 8000, ChatServer_new 8001]
       [(0, Accepted False), (1, Accepted False),
        (0, ReadDone 0 (Done ''   5'')), (0, ReadDone 0 (Done ''hello''))]"

text \<open>
  A read completion fails the session when the read itself failed, or when it was the
  header read and the bytes read do not decode.
\<close>

definition read_fails :: "nat \<Rightarrow> io_result \<Rightarrow> nat \<Rightarrow> ChatServer \<Rightarrow> bool" where
  "read_fails mbl res this srv =
     (case res of
        Failed \<Rightarrow> True
      | Done bytes \<Rightarrow>
          (case reads (socket (sessions srv this)) of
             ReadHeader # ops \<Rightarrow> decode_header mbl bytes = Inl InvalidHeader
           | _ \<Rightarrow> False))"

subsection \<open>Invariants of the states a server reaches\<close>

text \<open>
  \<open>one_read\<close>: a session has at most one read outstanding, and the session waiting for
  the accept has none. \<open>busy\<close>: a session is in the room or has an operation
  outstanding; \<open>live_open\<close>: such a session was accepted before the one now waiting, its
  socket is open and has never been closed, and the waiting session is new.
  \<open>front_written\<close>: a session has at most one write outstanding, and it is for the front
  of the queue.
\<close>

definition one_read :: "ChatServer \<Rightarrow> bool" where
  "one_read srv =
     ((\<forall>p. length (reads (socket (sessions srv p))) \<le> 1) \<and>
      reads (socket (sessions srv (new_session srv))) = [])"

definition busy :: "nat \<Rightarrow> ChatServer \<Rightarrow> bool" where
  "busy p srv =
     (p \<in> set (participants (room srv)) \<or>
      reads (socket (sessions srv p)) \<noteq> [] \<or>
      writes (socket (sessions srv p)) \<noteq> [])"

definition live_open :: "ChatServer \<Rightarrow> bool" where
  "live_open srv =
     (sessions srv (new_session srv) = ChatSession_new \<and>
      allocated srv = Suc (new_session srv) \<and>
      (\<forall>p. busy p srv \<longrightarrow>
         p < new_session srv \<and> is_open (socket (sessions srv p)) \<and>
         closes (socket (sessions srv p)) = 0))"

definition front_written :: "ChatSession \<Rightarrow> bool" where
  "front_written ses =
     (writes (socket ses) = [] \<or>
      (write_msgs ses \<noteq> [] \<and> writes (socket ses) = [hd (write_msgs ses)]))"

definition one_write :: "ChatServer \<Rightarrow> bool" where
  "one_write srv = (\<forall>p. front_written (sessions srv p))"

section \<open>The client\<close>

record ChatClient =
  c_socket :: tcp_socket
  c_read_msg :: ChatMessage
  c_write_msgs :: "ChatMessage list"

definition ChatClient_new :: ChatClient where
  "ChatClient_new = \<lparr>c_socket = socket_new, c_read_msg = ChatMessage_new, c_write_msgs = []\<rparr>"

definition do_close :: "ChatClient \<Rightarrow> ChatClient" where
  "do_close c = c\<lparr>c_socket := socket_close (c_socket c)\<rparr>"

definition do_write :: "ChatMessage \<Rightarrow> ChatClient \<Rightarrow> ChatClient" where
  "do_write msg c =
     (let write_in_progress = (c_write_msgs c \<noteq> []);
          c1 = c\<lparr>c_write_msgs := c_write_msgs c @ [msg]\<rparr>
      in if \<not> write_in_progress
         then c1\<lparr>c_socket := async_write (hd (c_write_msgs c1)) (c_socket c1)\<rparr>
         else c1)"

definition client_handle_write :: "bool \<Rightarrow> ChatClient \<Rightarrow> ChatClient" where
  "client_handle_write error c =
     (if \<not> error
      then (let c1 = c\<lparr>c_write_msgs := tl (c_write_msgs c)\<rparr>
            in if c_write_msgs c1 \<noteq> []
               then c1\<lparr>c_socket := async_write (hd (c_write_msgs c1)) (c_socket c1)\<rparr>
               else c1)
      else do_close c)"

definition client_write_complete :: "bool \<Rightarrow> ChatClient \<Rightarrow> ChatClient" where
  "client_write_complete error c =
     (case writes (c_socket c) of
        [] \<Rightarrow> c
      | m # ms \<Rightarrow>
          client_handle_write error
            (c\<lparr>c_socket := (c_socket c)\<lparr>writes := ms,
                  wire := (if error then wire (c_socket c) else wire (c_socket c) @ [m])\<rparr>\<rparr>))"

subsection \<open>The console loop of the client's main\<close>

text \<open>
  \<^verbatim>\<open>std::cin.getline(line, n)\<close> with \<open>n = max_body_length + 1\<close> stores characters until
  the input ends (the stream is then at its end, and has failed if nothing was
  extracted), or the next character is the newline (extracted, not stored), or \<open>n - 1\<close>
  characters are stored (the stream has then failed), in this order. The argument \<open>k\<close>
  counts the characters that may still be stored.
\<close>

datatype getline_result = GFail | GLine string string bool

fun getline_from :: "nat \<Rightarrow> string \<Rightarrow> string \<Rightarrow> getline_result" where
  "getline_from k acc [] = (if acc = [] then GFail else GLine acc [] True)"
| "getline_from k acc (c # cs) =
     (if c = newline then GLine acc cs False
      else if k = 0 then GFail
      else getline_from (k - 1) (acc @ [c]) cs)"

lemma getline_from_rest:
  "getline_from k acc inp = GLine l rest e \<Longrightarrow> length rest + (if e then 0 else 1) \<le> length inp"
  by (induction k acc inp rule: getline_from.induct) (auto split: if_splits)

text \<open>
  The contents of the buffer \<^verbatim>\<open>line\<close> in the successive iterations of
  \<^verbatim>\<open>while (std::cin.getline(line, ChatMessage::max_body_length + 1))\<close>: the loop ends when
  the stream has failed; a stream that is at its end fails in the next call.
\<close>

function console_lines :: "nat \<Rightarrow> string \<Rightarrow> bool \<Rightarrow> string list" where
  "console_lines mbl inp eof =
     (if eof then []
      else (case getline_from mbl [] inp of
              GFail \<Rightarrow> []
            | GLine l rest e \<Rightarrow> l # console_lines mbl rest e))"
  by pat_completeness auto
termination
proof (relation "measure (\<lambda>(mbl, inp, eof). length inp + (if eof then 0 else 1))")
  show "wf (measure (\<lambda>(mbl, inp, eof). length inp + (if eof then 0 else 1)))" by simp
next
  fix mbl :: nat and inp :: string and eof :: bool and l rest e
  assume "\<not> eof" and "getline_from mbl [] inp = GLine l rest e"
  then show "((mbl, rest, e), (mbl, inp, eof))
      \<in> measure (\<lambda>(mbl, inp, eof). length inp + (if eof then 0 else 1))"
    using getline_from_rest [of mbl "[]" inp l rest e] by (simp split: if_splits)
qed

declare console_lines.simps [simp del]

text \<open>\<^verbatim>\<open>strlen\<close>: the characters of the buffer before its first NUL.\<close>

definition strlen :: "string \<Rightarrow> nat" where
  "strlen l = length (takeWhile (\<lambda>c. c \<noteq> NUL) l)"

text \<open>
  The body of the loop: \<^verbatim>\<open>msg.body_length(strlen(line))\<close>, the \<^verbatim>\<open>memcpy\<close> of that many
  characters into the body, \<^verbatim>\<open>msg.encode_header()\<close>. The loop hands each message to
  \<^verbatim>\<open>c.write\<close>, in order.
\<close>

definition make_message :: "nat \<Rightarrow> string \<Rightarrow> ChatMessage" where
  "make_message hl l =
     (let msg = set_body_length (strlen l) ChatMessage_new;
          msg1 = msg\<lparr>body := take (body_length msg) l\<rparr>
      in ChatMessage_encode_header hl msg1)"

definition console_loop :: "nat \<Rightarrow> nat \<Rightarrow> string \<Rightarrow> ChatMessage list" where
  "console_loop hl mbl inp = map (make_message hl) (console_lines mbl inp False)"

section \<open>The outbound queue of one connection\<close>

text \<open>
  What happens to the queue of one connection: a frame is enqueued (the server's
  \<^verbatim>\<open>ChatSession::deliver\<close>, the client's \<^verbatim>\<open>do_write\<close>), or the outstanding write completes,
  with or without an error (\<^verbatim>\<open>handle_write\<close>).
\<close>

datatype qevent = Enqueue ChatMessage | Sent bool

definition session_event :: "nat \<Rightarrow> ChatServer \<Rightarrow> qevent \<Rightarrow> ChatServer" where
  "session_event p srv e =
     (case e of
        Enqueue m \<Rightarrow> upd_session p (ChatSession_deliver m) srv
      | Sent error \<Rightarrow> write_complete error p srv)"

definition client_event :: "ChatClient \<Rightarrow> qevent \<Rightarrow> ChatClient" where
  "client_event c e =
     (case e of
        Enqueue m \<Rightarrow> do_write m c
      | Sent error \<Rightarrow> client_write_complete error c)"

fun enqueued :: "qevent list \<Rightarrow> ChatMessage list" where
  "enqueued [] = []"
| "enqueued (Enqueue m # es) = m # enqueued es"
| "enqueued (Sent error # es) = enqueued es"

text \<open>
  Both programs manage the queue with the same statements. Their common view is the
  queue, the outstanding writes and the frames on the wire; \<open>outq_step\<close> is what an event
  does to this view.
\<close>

type_synonym outq = "ChatMessage list \<times> ChatMessage list \<times> ChatMessage list"

fun outq_step :: "outq \<Rightarrow> qevent \<Rightarrow> outq" where
  "outq_step (q, w, sent) (Enqueue m) = (q @ [m], (if q = [] then w @ [hd (q @ [m])] else w), sent)"
| "outq_step (q, [], sent) (Sent error) = (q, [], sent)"
| "outq_step (q, f # w, sent) (Sent error) =
     (if error then (q, w, sent)
      else (tl q, (if tl q \<noteq> [] then w @ [hd (tl q)] else w), sent @ [f]))"

definition session_view :: "nat \<Rightarrow> ChatServer \<Rightarrow> outq" where
  "session_view p srv =
     (write_msgs (sessions srv p), writes (socket (sessions srv p)), wire (socket (sessions srv p)))"

definition client_view :: "ChatClient \<Rightarrow> outq" where
  "client_view c = (c_write_msgs c, writes (c_socket c), wire (c_socket c))"

text \<open>
  \<open>in_flight_head\<close>: at most one write is outstanding, and it is for the front of the
  queue. \<open>head_in_flight\<close>: moreover the front of a non-empty queue is being written.
  \<open>all_frames\<close>: the frames written, followed by the frames waiting.
\<close>

definition in_flight_head :: "outq \<Rightarrow> bool" where
  "in_flight_head s = (case s of (q, w, sent) \<Rightarrow> w = [] \<or> (q \<noteq> [] \<and> w = [hd q]))"

definition head_in_flight :: "outq \<Rightarrow> bool" where
  "head_in_flight s = (case s of (q, w, sent) \<Rightarrow> w = take 1 q)"

definition all_frames :: "outq \<Rightarrow> ChatMessage list" where
  "all_frames s = (case s of (q, w, sent) \<Rightarrow> sent @ q)"

section \<open>Properties of the frame codec\<close>

lemma of_char_digit_char: "d < 10 \<Longrightarrow> (of_char (digit_char d) :: nat) = 48 + d"
  by (simp add: digit_char_def)

lemma is_digit_digit_char: "d < 10 \<Longrightarrow> is_digit (digit_char d)"
  by (simp add: is_digit_def of_char_digit_char)

lemma digit_val_digit_char: "d < 10 \<Longrightarrow> digit_val (digit_char d) = d"
  by (simp add: digit_val_def of_char_digit_char)

lemma digit_char_not_space: "d < 10 \<Longrightarrow> digit_char d \<noteq> space"
proof
  assume d: "d < 10" and e: "digit_char d = space"
  have "(of_char (digit_char d) :: nat) = of_char space" using e by simp
  then show False using d by (simp add: of_char_digit_char space_def)
qed

lemma decimal_not_Nil: "decimal n \<noteq> []"
  by (subst decimal.simps) simp

lemma decimal_digits: "list_all is_digit (decimal n)"
proof (induction n rule: decimal.induct)
  case (1 n)
  show ?case
  proof (cases "n < 10")
    case True
    then show ?thesis by (subst decimal.simps) (simp add: is_digit_digit_char)
  next
    case False
    with 1 show ?thesis by (subst decimal.simps) (simp add: is_digit_digit_char)
  qed
qed

lemma parse_decimal_snoc: "parse_decimal (ds @ [c]) = 10 * parse_decimal ds + digit_val c"
  by (simp add: parse_decimal_def)

lemma parse_decimal_decimal: "parse_decimal (decimal n) = n"
proof (induction n rule: decimal.induct)
  case (1 n)
  show ?case
  proof (cases "n < 10")
    case True
    then show ?thesis
      by (subst decimal.simps) (simp add: parse_decimal_def digit_val_digit_char)
  next
    case False
    with 1 show ?thesis
      by (subst decimal.simps) (simp add: parse_decimal_snoc digit_val_digit_char)
  qed
qed

lemma hd_decimal_not_space: "hd (decimal n) \<noteq> space"
proof -
  have "is_digit (hd (decimal n))"
    using decimal_digits [of n] decimal_not_Nil [of n]
    by (cases "decimal n") simp_all
  then show ?thesis by (auto simp: is_digit_def space_def)
qed

lemma length_decimal: "n < 10 ^ k \<Longrightarrow> 0 < k \<Longrightarrow> length (decimal n) \<le> k"
proof (induction n arbitrary: k rule: decimal.induct)
  case (1 n)
  show ?case
  proof (cases "n < 10")
    case True
    with 1 show ?thesis by (subst decimal.simps) simp
  next
    case False
    obtain j where k: "k = Suc j" using 1 by (cases k) auto
    have j: "0 < j"
    proof (cases j)
      case 0
      with k 1 False show ?thesis by simp
    qed simp
    have "n div 10 < 10 ^ j" using 1 k by (simp add: less_mult_imp_div_less mult.commute)
    with 1 False j have "length (decimal (n div 10)) \<le> j" by blast
    with False k show ?thesis by (subst decimal.simps) simp
  qed
qed

lemma header_digits_pad: "header_digits (replicate p space @ decimal n) = decimal n"
proof -
  obtain d ds where "decimal n = d # ds" using decimal_not_Nil [of n] by (cases "decimal n") auto
  moreover from this have "d \<noteq> space" using hd_decimal_not_space [of n] by simp
  ultimately show ?thesis
    by (simp add: header_digits_def dropWhile_append3)
qed

lemma encode_header_fits:
  assumes "length (decimal b) \<le> hl"
  shows "encode_header hl b = replicate (hl - length (decimal b)) space @ decimal b"
  using assms by (simp add: encode_header_def)

lemma length_encode_header: "length (encode_header hl b) = hl"
  by (simp add: encode_header_def)

lemma decode_encode_fits:
  assumes "length (decimal b) \<le> hl" and "b \<le> mbl"
  shows "decode_header mbl (encode_header hl b) = Inr b"
  using assms
  by (simp add: encode_header_fits decode_header_def numeric_def header_value_def
      header_digits_pad decimal_not_Nil decimal_digits parse_decimal_decimal)

lemma decode_encode:
  assumes "0 < hl" and "mbl < 10 ^ hl" and "b \<le> mbl"
  shows "decode_header mbl (encode_header hl b) = Inr b"
proof -
  have "b < 10 ^ hl" using assms by simp
  with assms(1) have "length (decimal b) \<le> hl" by (simp add: length_decimal)
  then show ?thesis using assms(3) by (rule decode_encode_fits)
qed

lemma decode_header_Inr_iff:
  "decode_header mbl h = Inr n \<longleftrightarrow> numeric h \<and> header_value h = n \<and> n \<le> mbl"
  by (auto simp: decode_header_def)

lemma not_numeric_if_foreign_char:
  assumes "c \<in> set h" and "c \<noteq> space" and "\<not> is_digit c"
  shows "\<not> numeric h"
proof
  assume n: "numeric h"
  have "c \<in> set (takeWhile (\<lambda>c. c = space) h) \<union> set (header_digits h)"
    using assms(1) takeWhile_dropWhile_id [of "\<lambda>c. c = space" h]
    by (metis header_digits_def set_append)
  moreover have "c \<notin> set (takeWhile (\<lambda>c. c = space) h)"
    using assms(2) by (auto dest: set_takeWhileD)
  ultimately have "c \<in> set (header_digits h)" by simp
  with n assms(3) show False by (auto simp: numeric_def list_all_iff)
qed

section \<open>Properties of the room and its sessions\<close>

lemma sessions_upd_session:
  "sessions (upd_session p f srv) q = (if q = p then f (sessions srv p) else sessions srv q)"
  by (simp add: upd_session_def)

lemma room_upd_session: "room (upd_session p f srv) = room srv"
  by (simp add: upd_session_def)

lemma sessions_upd_room: "sessions (upd_room f srv) = sessions srv"
  by (simp add: upd_room_def)

lemma room_upd_room: "room (upd_room f srv) = f (room srv)"
  by (simp add: upd_room_def)

lemma write_msgs_ChatSession_deliver:
  "write_msgs (ChatSession_deliver msg ses) = write_msgs ses @ [msg]"
  by (simp add: ChatSession_deliver_def Let_def)

lemma read_msg_ChatSession_deliver:
  "read_msg (ChatSession_deliver msg ses) = read_msg ses"
  by (simp add: ChatSession_deliver_def Let_def)

lemma reads_ChatSession_deliver:
  "reads (socket (ChatSession_deliver msg ses)) = reads (socket ses)"
  by (simp add: ChatSession_deliver_def Let_def async_write_def)

lemma wire_ChatSession_deliver:
  "wire (socket (ChatSession_deliver msg ses)) = wire (socket ses)"
  by (simp add: ChatSession_deliver_def Let_def async_write_def)

lemma is_open_ChatSession_deliver:
  "is_open (socket (ChatSession_deliver msg ses)) = is_open (socket ses)"
  by (simp add: ChatSession_deliver_def Let_def async_write_def)

lemma write_msgs_replay: "write_msgs (replay ms ses) = write_msgs ses @ ms"
  unfolding replay_def
  by (induction ms arbitrary: ses) (simp_all add: write_msgs_ChatSession_deliver)

lemma foldl_upd_session_one:
  "foldl (\<lambda>s msg. upd_session p (ChatSession_deliver msg) s) srv ms =
   upd_session p (replay ms) srv"
  unfolding replay_def
proof (induction ms arbitrary: srv)
  case Nil
  show ?case by (simp add: upd_session_def)
next
  case (Cons m ms)
  show ?case by (simp add: Cons.IH) (simp add: upd_session_def)
qed

lemma pop_excess_drop: "pop_excess ms = drop (length ms - max_recent_msgs) ms"
proof (induction ms rule: pop_excess.induct)
  case (1 ms)
  show ?case
  proof (cases "length ms > max_recent_msgs")
    case True
    then have "ms \<noteq> []" by auto
    then obtain x xs where ms: "ms = x # xs" by (cases ms) auto
    from True 1 have "pop_excess (tl ms) = drop (length (tl ms) - max_recent_msgs) (tl ms)" by simp
    with True ms show ?thesis
      by (subst pop_excess.simps) (simp add: Suc_diff_le)
  next
    case False
    then show ?thesis by (subst pop_excess.simps) simp
  qed
qed

lemma foldl_upd_session_all:
  "distinct ps \<Longrightarrow>
   foldl (\<lambda>s p. upd_session p f s) srv ps =
   srv\<lparr>sessions := (\<lambda>q. if q \<in> set ps then f (sessions srv q) else sessions srv q)\<rparr>"
proof (induction ps arbitrary: srv)
  case Nil
  show ?case by simp
next
  case (Cons p ps)
  then show ?case
    by (simp add: upd_session_def) (rule arg_cong [where f = "\<lambda>h. srv\<lparr>sessions := h\<rparr>"], auto)
qed

lemma room_foldl_upd_session:
  "room (foldl (\<lambda>s p. upd_session p f s) srv ps) = room srv"
  by (induction ps arbitrary: srv) (simp_all add: room_upd_session)

lemma room_ChatRoom_deliver:
  "room (ChatRoom_deliver msg srv) =
   (room srv)\<lparr>recent_msgs := pop_excess (recent_msgs (room srv) @ [msg])\<rparr>"
  by (simp add: ChatRoom_deliver_def Let_def room_foldl_upd_session room_upd_room)

lemma recent_msgs_ChatRoom_deliver:
  "recent_msgs (room (ChatRoom_deliver msg srv)) =
   drop (Suc (length (recent_msgs (room srv))) - max_recent_msgs) (recent_msgs (room srv) @ [msg])"
  by (simp add: room_ChatRoom_deliver pop_excess_drop)

lemma participants_ChatRoom_deliver:
  "participants (room (ChatRoom_deliver msg srv)) = participants (room srv)"
  by (simp add: room_ChatRoom_deliver)

lemma drop_window_snoc:
  "drop (Suc (length (drop (length h - n) h)) - n) (drop (length h - n) h @ [m]) =
   drop (length (h @ [m]) - n) (h @ [m])"
proof (cases "length h \<le> n")
  case True
  then show ?thesis by simp
next
  case False
  then have "length (drop (length h - n) h) = n" by simp
  with False show ?thesis by (simp add: Suc_diff_le)
qed

lemma recent_msgs_deliver_all:
  "length (recent_msgs (room srv)) \<le> max_recent_msgs \<Longrightarrow>
   recent_msgs (room (deliver_all ms srv)) =
   drop (length (recent_msgs (room srv) @ ms) - max_recent_msgs) (recent_msgs (room srv) @ ms)"
proof (induction ms rule: rev_induct)
  case Nil
  then show ?case by (simp add: deliver_all_def)
next
  case (snoc m ms)
  have "recent_msgs (room (deliver_all (ms @ [m]) srv)) =
      drop (Suc (length (drop (length (recent_msgs (room srv) @ ms) - max_recent_msgs)
                   (recent_msgs (room srv) @ ms))) - max_recent_msgs)
        (drop (length (recent_msgs (room srv) @ ms) - max_recent_msgs)
           (recent_msgs (room srv) @ ms) @ [m])"
    using snoc by (simp add: deliver_all_def recent_msgs_ChatRoom_deliver)
  also have "\<dots> = drop (length ((recent_msgs (room srv) @ ms) @ [m]) - max_recent_msgs)
      ((recent_msgs (room srv) @ ms) @ [m])"
    by (rule drop_window_snoc)
  finally show ?case by simp
qed

lemma room_ChatRoom_join:
  "room (ChatRoom_join p srv) = (room srv)\<lparr>participants := set_insert p (participants (room srv))\<rparr>"
  by (simp add: ChatRoom_join_def Let_def foldl_upd_session_one room_upd_session room_upd_room)

lemma sessions_ChatRoom_join:
  "sessions (ChatRoom_join p srv) q =
   (if q = p then replay (recent_msgs (room srv)) (sessions srv p) else sessions srv q)"
  by (simp add: ChatRoom_join_def Let_def foldl_upd_session_one sessions_upd_session
      sessions_upd_room room_upd_room)

lemma set_set_insert: "set (set_insert p xs) = insert p (set xs)"
  by (auto simp: set_insert_def set_insort_key)

lemma std_set_set_insert: "std_set xs \<Longrightarrow> std_set (set_insert p xs)"
  by (auto simp: set_insert_def std_set_def sorted_insort distinct_insort)

lemma std_set_set_erase: "std_set xs \<Longrightarrow> std_set (set_erase p xs)"
  by (auto simp: set_erase_def std_set_def sorted_wrt_filter removeAll_filter_not_eq distinct_removeAll)

lemma set_erase_absent: "p \<notin> set xs \<Longrightarrow> set_erase p xs = xs"
  by (simp add: set_erase_def)

lemma ChatRoom_leave_absent:
  "p \<notin> set (participants (room srv)) \<Longrightarrow> ChatRoom_leave p srv = srv"
  by (simp add: ChatRoom_leave_def upd_room_def set_erase_absent)

lemma ChatRoom_leave_twice: "ChatRoom_leave p (ChatRoom_leave p srv) = ChatRoom_leave p srv"
  by (simp add: ChatRoom_leave_def upd_room_def set_erase_def)

lemma room_ChatRoom_leave:
  "room (ChatRoom_leave p srv) = (room srv)\<lparr>participants := set_erase p (participants (room srv))\<rparr>"
  by (simp add: ChatRoom_leave_def upd_room_def)

lemma sessions_ChatRoom_leave: "sessions (ChatRoom_leave p srv) = sessions srv"
  by (simp add: ChatRoom_leave_def upd_room_def)

lemma std_set_distinct: "std_set xs \<Longrightarrow> distinct xs"
  by (simp add: std_set_def)

lemma sessions_ChatRoom_deliver:
  assumes "distinct (participants (room srv))"
  shows "sessions (ChatRoom_deliver msg srv) q =
    (if q \<in> set (participants (room srv)) then ChatSession_deliver msg (sessions srv q)
     else sessions srv q)"
  using assms
  by (simp add: ChatRoom_deliver_def Let_def foldl_upd_session_all room_upd_room
      sessions_upd_room)

lemma write_msgs_deliver_all:
  assumes "distinct (participants (room srv))" and "p \<in> set (participants (room srv))"
  shows "write_msgs (sessions (deliver_all ms srv) p) = write_msgs (sessions srv p) @ ms"
  using assms
proof (induction ms arbitrary: srv)
  case Nil
  show ?case by (simp add: deliver_all_def)
next
  case (Cons m ms)
  have "write_msgs (sessions (deliver_all ms (ChatRoom_deliver m srv)) p) =
      write_msgs (sessions (ChatRoom_deliver m srv) p) @ ms"
    using Cons.prems by (intro Cons.IH) (simp_all add: participants_ChatRoom_deliver)
  then show ?case
    using Cons.prems
    by (simp add: deliver_all_def sessions_ChatRoom_deliver write_msgs_ChatSession_deliver)
qed

lemma sessions_deliver_all_other:
  assumes "distinct (participants (room srv))" and "p \<notin> set (participants (room srv))"
  shows "sessions (deliver_all ms srv) p = sessions srv p"
  using assms
proof (induction ms arbitrary: srv)
  case Nil
  show ?case by (simp add: deliver_all_def)
next
  case (Cons m ms)
  have "sessions (deliver_all ms (ChatRoom_deliver m srv)) p = sessions (ChatRoom_deliver m srv) p"
    using Cons.prems by (intro Cons.IH) (simp_all add: participants_ChatRoom_deliver)
  then show ?case
    using Cons.prems by (simp add: deliver_all_def sessions_ChatRoom_deliver)
qed

lemma last_pop_excess_snoc: "last (pop_excess (ms @ [m])) = m"
  by (simp add: pop_excess_drop max_recent_msgs_def)

lemma reads_replay: "reads (socket (replay ms ses)) = reads (socket ses)"
  unfolding replay_def
  by (induction ms arbitrary: ses) (simp_all add: reads_ChatSession_deliver)

lemma sessions_ChatSession_start:
  "sessions (ChatSession_start p srv) q =
   (if q = p
    then (replay (recent_msgs (room srv)) (sessions srv p))
           \<lparr>socket := async_read ReadHeader (socket (replay (recent_msgs (room srv)) (sessions srv p)))\<rparr>
    else sessions srv q)"
  by (simp add: ChatSession_start_def sessions_upd_session sessions_ChatRoom_join)

lemma room_ChatSession_start: "room (ChatSession_start p srv) = room (ChatRoom_join p srv)"
  by (simp add: ChatSession_start_def room_upd_session)

lemma sessions_handle_write_error: "sessions (handle_write True p srv) = sessions srv"
  by (simp add: handle_write_def sessions_ChatRoom_leave)




lemma recent_msgs_write_complete_error:
  "recent_msgs (room (write_complete True p srv)) = recent_msgs (room srv)"
  by (simp add: write_complete_def handle_write_def room_ChatRoom_leave room_upd_session
      split: list.splits)


lemma set_set_erase: "set (set_erase p xs) = set xs - {p}"
  by (auto simp: set_erase_def)


section \<open>Properties of the outbound queue\<close>

lemma session_view_event:
  "session_view p (session_event p srv e) = outq_step (session_view p srv) e"
proof (cases e)
  case (Enqueue m)
  then show ?thesis
    by (simp add: session_view_def session_event_def sessions_upd_session ChatSession_deliver_def
        Let_def async_write_def)
next
  case (Sent error)
  show ?thesis
  proof (cases "writes (socket (sessions srv p))")
    case Nil
    with Sent show ?thesis by (simp add: session_view_def session_event_def write_complete_def)
  next
    case (Cons f w)
    with Sent show ?thesis
      by (simp add: session_view_def session_event_def write_complete_def handle_write_def
          sessions_upd_session sessions_ChatRoom_leave Let_def async_write_def)
  qed
qed

lemma client_view_event: "client_view (client_event c e) = outq_step (client_view c) e"
proof (cases e)
  case (Enqueue m)
  then show ?thesis
    by (simp add: client_view_def client_event_def do_write_def Let_def async_write_def)
next
  case (Sent error)
  show ?thesis
  proof (cases "writes (c_socket c)")
    case Nil
    with Sent show ?thesis by (simp add: client_view_def client_event_def client_write_complete_def)
  next
    case (Cons f w)
    with Sent show ?thesis
      by (simp add: client_view_def client_event_def client_write_complete_def
          client_handle_write_def do_close_def socket_close_def Let_def async_write_def)
  qed
qed

lemma session_view_run:
  "session_view p (foldl (session_event p) srv es) = foldl outq_step (session_view p srv) es"
  by (induction es arbitrary: srv) (simp_all add: session_view_event)

lemma client_view_run:
  "client_view (foldl client_event c es) = foldl outq_step (client_view c) es"
  by (induction es arbitrary: c) (simp_all add: client_view_event)

lemma head_in_flight_weaken: "head_in_flight s \<Longrightarrow> in_flight_head s"
  by (cases s) (auto simp: head_in_flight_def in_flight_head_def take_Suc split: list.splits)

lemma in_flight_head_step: "in_flight_head s \<Longrightarrow> in_flight_head (outq_step s e)"
proof -
  obtain q w sent where s: "s = (q, w, sent)" by (cases s) auto
  assume "in_flight_head s"
  with s show ?thesis
    by (cases e; cases w) (auto simp: in_flight_head_def split: if_splits)
qed

lemma head_in_flight_step:
  "head_in_flight s \<Longrightarrow> e \<noteq> Sent True \<Longrightarrow> head_in_flight (outq_step s e)"
proof -
  obtain q w sent where s: "s = (q, w, sent)" by (cases s) auto
  assume "head_in_flight s" and "e \<noteq> Sent True"
  with s show ?thesis
    by (cases e; cases w; cases q)
      (auto simp: head_in_flight_def take_Suc split: if_splits list.splits)
qed

lemma all_frames_step:
  "in_flight_head s \<Longrightarrow> all_frames (outq_step s e) = all_frames s @ enqueued [e]"
proof -
  obtain q w sent where s: "s = (q, w, sent)" by (cases s) auto
  assume "in_flight_head s"
  with s show ?thesis
    by (cases e; cases w; cases q) (auto simp: in_flight_head_def all_frames_def split: if_splits)
qed

lemma enqueued_append: "enqueued (es @ fs) = enqueued es @ enqueued fs"
  by (induction es rule: enqueued.induct) simp_all

lemma in_flight_head_run: "in_flight_head s \<Longrightarrow> in_flight_head (foldl outq_step s es)"
  by (induction es arbitrary: s) (simp_all add: in_flight_head_step)

lemma head_in_flight_run:
  "head_in_flight s \<Longrightarrow> Sent True \<notin> set es \<Longrightarrow> head_in_flight (foldl outq_step s es)"
proof (induction es arbitrary: s)
  case Nil
  then show ?case by simp
next
  case (Cons e es)
  from Cons.prems have "e \<noteq> Sent True" and "Sent True \<notin> set es" by auto
  with Cons.prems(1) show ?case
    by (simp add: Cons.IH head_in_flight_step)
qed

lemma all_frames_run:
  "in_flight_head s \<Longrightarrow> all_frames (foldl outq_step s es) = all_frames s @ enqueued es"
proof (induction es arbitrary: s)
  case Nil
  show ?case by simp
next
  case (Cons e es)
  have "all_frames (foldl outq_step (outq_step s e) es) = all_frames (outq_step s e) @ enqueued es"
    using Cons.prems by (intro Cons.IH in_flight_head_step)
  then show ?case
    using Cons.prems enqueued_append [of "[e]" es] by (simp add: all_frames_step)
qed

lemma drain:
  "head_in_flight (q, w, sent) \<Longrightarrow>
   foldl outq_step (q, w, sent) (replicate (length q) (Sent False)) = ([], [], sent @ q)"
proof (induction q arbitrary: w sent)
  case Nil
  then show ?case by (simp add: head_in_flight_def)
next
  case (Cons f q)
  then have w: "w = [f]" by (simp add: head_in_flight_def)
  have "head_in_flight (q, take 1 q, sent @ [f])" by (simp add: head_in_flight_def)
  then have "foldl outq_step (q, take 1 q, sent @ [f]) (replicate (length q) (Sent False)) =
      ([], [], (sent @ [f]) @ q)" by (rule Cons.IH)
  moreover have "outq_step (f # q, w, sent) (Sent False) = (q, take 1 q, sent @ [f])"
    using w by (cases q) simp_all
  ultimately show ?case by simp
qed

lemma outq_facts:
  assumes "head_in_flight s"
  shows "all_frames (foldl outq_step s es) = all_frames s @ enqueued es"
    and "length (fst (snd (foldl outq_step s es))) \<le> 1"
    and "Sent True \<notin> set es \<Longrightarrow> head_in_flight (foldl outq_step s es)"
    and "Sent True \<notin> set es \<Longrightarrow>
         foldl outq_step s (es @ replicate (length (fst (foldl outq_step s es))) (Sent False)) =
         ([], [], all_frames s @ enqueued es)"
proof -
  have w: "in_flight_head s" using assms by (rule head_in_flight_weaken)
  show a: "all_frames (foldl outq_step s es) = all_frames s @ enqueued es"
    using w by (rule all_frames_run)
  have "in_flight_head (foldl outq_step s es)" using w by (rule in_flight_head_run)
  then show "length (fst (snd (foldl outq_step s es))) \<le> 1"
    by (cases "foldl outq_step s es") (auto simp: in_flight_head_def)
  show h: "Sent True \<notin> set es \<Longrightarrow> head_in_flight (foldl outq_step s es)"
    using assms by (rule head_in_flight_run)
  show "foldl outq_step s (es @ replicate (length (fst (foldl outq_step s es))) (Sent False)) =
         ([], [], all_frames s @ enqueued es)" if n: "Sent True \<notin> set es"
  proof -
    obtain q w sent where e: "foldl outq_step s es = (q, w, sent)"
      by (cases "foldl outq_step s es") auto
    have "head_in_flight (q, w, sent)" using h [OF n] e by simp
    then have "foldl outq_step (q, w, sent) (replicate (length q) (Sent False)) = ([], [], sent @ q)"
      by (rule drain)
    moreover have "sent @ q = all_frames s @ enqueued es"
      using a e by (simp add: all_frames_def)
    ultimately show ?thesis using e by simp
  qed
qed

section \<open>Properties of the console loop\<close>

lemma getline_from_length:
  "getline_from k acc inp = GLine l rest e \<Longrightarrow> length l \<le> length acc + k"
  by (induction k acc inp rule: getline_from.induct) (auto split: if_splits)

lemma console_lines_length:
  "l \<in> set (console_lines mbl inp eof) \<Longrightarrow> length l \<le> mbl"
proof (induction mbl inp eof rule: console_lines.induct)
  case (1 mbl inp eof)
  show ?case
  proof (cases eof)
    case True
    with "1.prems" show ?thesis by (simp add: console_lines.simps)
  next
    case False
    show ?thesis
    proof (cases "getline_from mbl [] inp")
      case GFail
      with False "1.prems" show ?thesis by (simp add: console_lines.simps)
    next
      case (GLine l' rest e)
      with False "1.prems" have "l = l' \<or> l \<in> set (console_lines mbl rest e)"
        by (simp add: console_lines.simps)
      then show ?thesis
      proof
        assume "l = l'"
        with getline_from_length [OF GLine] show ?thesis by simp
      next
        assume "l \<in> set (console_lines mbl rest e)"
        with "1.IH" [OF False GLine] show ?thesis by simp
      qed
    qed
  qed
qed

lemma strlen_le: "strlen l \<le> length l"
  by (simp add: strlen_def length_takeWhile_le)

lemma body_length_make_message: "body_length (make_message hl l) = strlen l"
  by (simp add: make_message_def Let_def ChatMessage_encode_header_def set_body_length_def
      ChatMessage_new_def)

lemma header_make_message: "header (make_message hl l) = encode_header hl (strlen l)"
  by (simp add: make_message_def Let_def ChatMessage_encode_header_def set_body_length_def
      ChatMessage_new_def)

lemma body_make_message: "body (make_message hl l) = take (strlen l) l"
  by (simp add: make_message_def Let_def ChatMessage_encode_header_def set_body_length_def
      ChatMessage_new_def)

lemma getline_from_line:
  "newline \<notin> set l \<Longrightarrow> length l \<le> k \<Longrightarrow>
   getline_from k acc (l @ newline # rest) = GLine (acc @ l) rest False"
  by (induction l arbitrary: k acc) auto

lemma getline_from_too_long:
  "newline \<notin> set l \<Longrightarrow> k < length l \<Longrightarrow> getline_from k acc (l @ rest) = GFail"
  by (induction l arbitrary: k acc) auto

lemma console_lines_line:
  "newline \<notin> set l \<Longrightarrow> length l \<le> mbl \<Longrightarrow>
   console_lines mbl (l @ newline # rest) False = l # console_lines mbl rest False"
  by (subst console_lines.simps) (simp add: getline_from_line)

lemma console_lines_too_long:
  "newline \<notin> set l \<Longrightarrow> mbl < length l \<Longrightarrow> console_lines mbl (l @ rest) False = []"
  by (subst console_lines.simps) (simp add: getline_from_too_long)

section \<open>Properties of read completions and of the process\<close>

lemma decode_header_5: "decode_header 512 ''   5'' = Inr 5"
  by code_simp

lemmas step_defs = server_step_def accept_complete_def read_complete_def write_complete_def
  handle_accept_def start_accept_def ChatSession_start_def ChatRoom_join_def ChatRoom_leave_def
  ChatRoom_deliver_def handle_read_header_def handle_read_body_def handle_write_def
  ChatSession_deliver_def upd_session_def upd_room_def async_read_def async_write_def
  ChatMessage_decode_header_def set_insert_def set_erase_def ChatServer_new_def
  ChatSession_new_def socket_new_def ChatMessage_new_def Let_def
  release_def owned_def destroy_def socket_close_def

lemma pop_excess_short: "length ms \<le> 100 \<Longrightarrow> pop_excess ms = ms"
  by (simp add: pop_excess_drop max_recent_msgs_def)

lemma busy_session:
  "sessions busy_server 0 =
     \<lparr>socket = \<lparr>is_open = True, reads = [ReadHeader], writes = [hello], wire = [],
                closes = 0\<rparr>,
      read_msg = world, write_msgs = [hello, world]\<rparr>"
  by (simp add: busy_server_def step_defs decode_header_5 pop_excess_short hello_def world_def)

lemma busy_room: "room busy_server = \<lparr>participants = [0], recent_msgs = [hello, world]\<rparr>"
  by (simp add: busy_server_def step_defs decode_header_5 pop_excess_short hello_def world_def)

lemma handle_read_header_fail:
  "error \<or> decode_header mbl (header (read_msg (sessions srv this))) = Inl InvalidHeader \<Longrightarrow>
   handle_read_header mbl error this srv = ChatRoom_leave this srv"
  by (auto simp: handle_read_header_def ChatMessage_decode_header_def)

lemma handle_read_body_fail: "handle_read_body True this srv = ChatRoom_leave this srv"
  by (simp add: handle_read_body_def)

lemma read_complete_Failed:
  "read_complete mbl Failed this srv =
   (case reads (socket (sessions srv this)) of
      [] \<Rightarrow> srv
    | op # ops \<Rightarrow>
        ChatRoom_leave this
          (upd_session this (\<lambda>s. s\<lparr>socket := (socket s)\<lparr>reads := ops\<rparr>\<rparr>) srv))"
  by (simp add: read_complete_def handle_read_header_def handle_read_body_def Let_def
      split: list.splits read_op.splits)

lemma read_complete_bad_header:
  assumes "reads (socket (sessions srv this)) = ReadHeader # ops"
    and "decode_header mbl bytes = Inl InvalidHeader"
  shows "read_complete mbl (Done bytes) this srv =
    ChatRoom_leave this
      (upd_session this (\<lambda>s. s\<lparr>read_msg := (read_msg s)\<lparr>header := bytes\<rparr>\<rparr>)
         (upd_session this (\<lambda>s. s\<lparr>socket := (socket s)\<lparr>reads := ops\<rparr>\<rparr>) srv))"
  using assms
  by (simp add: read_complete_def handle_read_header_def ChatMessage_decode_header_def
      sessions_upd_session Let_def)

lemma length_process_step: "length (process_step mbl servers e) = length servers"
  by (cases e) (simp add: process_step_def)

lemma length_io_service_run: "length (io_service_run mbl servers es) = length servers"
  unfolding io_service_run_def
  by (induction es arbitrary: servers) (simp_all add: length_process_step)

lemma process_step_other: "j \<noteq> i \<Longrightarrow> process_step mbl servers (i, c) ! j = servers ! j"
  by (simp add: process_step_def)

lemma process_step_same:
  "i < length servers \<Longrightarrow> process_step mbl servers (i, c) ! i = server_step mbl (servers ! i) c"
  by (simp add: process_step_def)

lemma room_start_accept: "room (start_accept srv) = room srv"
  by (simp add: start_accept_def)

lemma room_release: "room (release p srv) = room srv"
  by (simp add: release_def room_upd_session)

lemma accept_complete_joins:
  "new_session srv \<in> set (participants (room (accept_complete False srv)))"
  by (simp add: accept_complete_def handle_accept_def room_start_accept room_ChatSession_start
      room_ChatRoom_join set_set_insert room_upd_session)

text \<open>
  The participant list of every state a server can reach is a set: the hypothesis of the
  claims about the room holds throughout every run.
\<close>

lemma std_set_ChatRoom_leave:
  "std_set (participants (room srv)) \<Longrightarrow> std_set (participants (room (ChatRoom_leave p srv)))"
  by (simp add: room_ChatRoom_leave std_set_set_erase)

lemma std_set_ChatRoom_join:
  "std_set (participants (room srv)) \<Longrightarrow> std_set (participants (room (ChatRoom_join p srv)))"
  by (simp add: room_ChatRoom_join std_set_set_insert)

lemma std_set_server_step:
  assumes "std_set (participants (room srv))"
  shows "std_set (participants (room (server_step mbl srv c)))"
proof (cases c)
  case (Accepted error)
  with assms show ?thesis
    by (simp add: server_step_def accept_complete_def handle_accept_def room_start_accept
        room_ChatSession_start std_set_ChatRoom_join room_upd_session room_release)
next
  case (ReadDone p res)
  with assms show ?thesis
    by (auto simp: server_step_def read_complete_def handle_read_header_def handle_read_body_def
        Let_def room_upd_session participants_ChatRoom_deliver std_set_ChatRoom_leave
        room_release split: list.splits read_op.splits io_result.splits sum.splits)
next
  case (WriteDone p error)
  with assms show ?thesis
    by (auto simp: server_step_def write_complete_def handle_write_def room_upd_session
        std_set_ChatRoom_leave room_release split: list.splits)
qed

lemma std_set_reachable:
  "std_set (participants (room (foldl (server_step mbl) (ChatServer_new endpoint) cs)))"
proof -
  have "std_set (participants (room srv)) \<Longrightarrow>
      std_set (participants (room (foldl (server_step mbl) srv cs)))" for srv
    by (induction cs arbitrary: srv) (simp_all add: std_set_server_step)
  moreover have "std_set (participants (room (ChatServer_new endpoint)))"
    by (simp add: ChatServer_new_def start_accept_def std_set_def)
  ultimately show ?thesis by blast
qed

section \<open>Properties of the lifetime of a session\<close>

lemma socket_close_twice: "socket_close (socket_close sock) = socket_close sock"
  by (simp add: socket_close_def)

lemma destroy_twice: "destroy (destroy ses) = destroy ses"
  by (simp add: destroy_def socket_close_twice)

lemma upd_session_same: "f (sessions srv p) = sessions srv p \<Longrightarrow> upd_session p f srv = srv"
  by (simp add: upd_session_def)

lemma sessions_release_other: "q \<noteq> p \<Longrightarrow> sessions (release p srv) q = sessions srv q"
  by (simp add: release_def sessions_upd_session)

lemma reads_release: "reads (socket (sessions (release p srv) q)) = reads (socket (sessions srv q))"
  by (simp add: release_def sessions_upd_session destroy_def socket_close_def)

lemma new_session_release: "new_session (release p srv) = new_session srv"
  by (simp add: release_def upd_session_def)

lemma release_owned: "owned p srv \<Longrightarrow> release p srv = srv"
  by (simp add: release_def)

lemma release_unowned: "\<not> owned p srv \<Longrightarrow> release p srv = upd_session p destroy srv"
  by (simp add: release_def)

text \<open>A destroyed session: no owner, no queue, the socket closed. Nothing completes for it.\<close>

lemma destroyed_final:
  assumes "\<not> owned p srv" and "write_msgs (sessions srv p) = []"
    and "\<not> is_open (socket (sessions srv p))"
  shows "server_step mbl srv (ReadDone p res) = srv"
    and "server_step mbl srv (WriteDone p error) = srv"
proof -
  have r: "reads (socket (sessions srv p)) = []" and w: "writes (socket (sessions srv p)) = []"
    using assms(1) by (simp_all add: owned_def)
  have d: "destroy (sessions srv p) = sessions srv p"
    using assms(2,3) by (simp add: destroy_def socket_close_def)
  have u: "release p srv = srv"
    using assms(1) d by (simp add: release_unowned upd_session_same)
  show "server_step mbl srv (ReadDone p res) = srv"
    using r u by (simp add: server_step_def read_complete_def)
  show "server_step mbl srv (WriteDone p error) = srv"
    using w u by (simp add: server_step_def write_complete_def)
qed

lemma read_fails_leave:
  assumes "read_fails mbl res this srv" and "reads (socket (sessions srv this)) = op # ops"
  shows "\<exists>g. read_complete mbl res this srv = ChatRoom_leave this (upd_session this g srv) \<and>
    (\<forall>s. socket (g s) = (socket s)\<lparr>reads := ops\<rparr> \<and> write_msgs (g s) = write_msgs s)"
proof (cases res)
  case Failed
  then show ?thesis
    using assms(2)
    by (intro exI [where x = "\<lambda>s. s\<lparr>socket := (socket s)\<lparr>reads := ops\<rparr>\<rparr>"])
      (simp add: read_complete_Failed)
next
  case (Done bytes)
  with assms have o: "reads (socket (sessions srv this)) = ReadHeader # ops"
    and d: "decode_header mbl bytes = Inl InvalidHeader"
    by (auto simp: read_fails_def split: read_op.splits)
  show ?thesis
    using Done read_complete_bad_header [OF o d]
    by (intro exI [where x = "\<lambda>s. s\<lparr>socket := (socket s)\<lparr>reads := ops\<rparr>,
          read_msg := (read_msg s)\<lparr>header := bytes\<rparr>\<rparr>"])
      (simp add: upd_session_def)
qed


lemma read_fails_step:
  assumes f: "read_fails mbl res this srv"
    and r: "reads (socket (sessions srv this)) = [op]"
    and n: "new_session srv \<noteq> this"
  shows "set (participants (room (server_step mbl srv (ReadDone this res)))) =
      set (participants (room srv)) - {this}"
    and "recent_msgs (room (server_step mbl srv (ReadDone this res))) = recent_msgs (room srv)"
    and "reads (socket (sessions (server_step mbl srv (ReadDone this res)) this)) = []"
    and "q \<noteq> this \<Longrightarrow> sessions (server_step mbl srv (ReadDone this res)) q = sessions srv q"
    and "writes (socket (sessions srv this)) = [] \<Longrightarrow>
      \<not> owned this (server_step mbl srv (ReadDone this res)) \<and>
      write_msgs (sessions (server_step mbl srv (ReadDone this res)) this) = [] \<and>
      \<not> is_open (socket (sessions (server_step mbl srv (ReadDone this res)) this)) \<and>
      closes (socket (sessions (server_step mbl srv (ReadDone this res)) this)) =
        (if is_open (socket (sessions srv this)) then Suc (closes (socket (sessions srv this)))
         else closes (socket (sessions srv this)))"
    and "writes (socket (sessions srv this)) \<noteq> [] \<Longrightarrow>
      session_view this (server_step mbl srv (ReadDone this res)) = session_view this srv \<and>
      is_open (socket (sessions (server_step mbl srv (ReadDone this res)) this)) =
        is_open (socket (sessions srv this)) \<and>
      closes (socket (sessions (server_step mbl srv (ReadDone this res)) this)) =
        closes (socket (sessions srv this))"
proof -
  obtain g where g: "read_complete mbl res this srv = ChatRoom_leave this (upd_session this g srv)"
    and gs: "\<And>s. socket (g s) = (socket s)\<lparr>reads := []\<rparr>"
    and gw: "\<And>s. write_msgs (g s) = write_msgs s"
    using read_fails_leave [OF f r] by blast
  let ?s1 = "read_complete mbl res this srv"
  have st: "server_step mbl srv (ReadDone this res) = release this ?s1"
    by (simp add: server_step_def)
  have p1: "participants (room ?s1) = set_erase this (participants (room srv))"
    by (simp add: g room_ChatRoom_leave room_upd_session)
  have s1: "sessions ?s1 this = g (sessions srv this)"
    by (simp add: g sessions_ChatRoom_leave sessions_upd_session)
  have o1: "\<And>q. q \<noteq> this \<Longrightarrow> sessions ?s1 q = sessions srv q"
    by (simp add: g sessions_ChatRoom_leave sessions_upd_session)
  have n1: "new_session ?s1 = new_session srv"
    by (simp add: g ChatRoom_leave_def upd_room_def upd_session_def)
  have ow: "owned this ?s1 \<longleftrightarrow> writes (socket (sessions srv this)) \<noteq> []"
    using n by (simp add: owned_def p1 s1 gs n1 set_set_erase)
  show "set (participants (room (server_step mbl srv (ReadDone this res)))) =
      set (participants (room srv)) - {this}"
    by (simp add: st room_release p1 set_set_erase)
  show "recent_msgs (room (server_step mbl srv (ReadDone this res))) = recent_msgs (room srv)"
    by (simp add: st room_release g room_ChatRoom_leave room_upd_session)
  show "reads (socket (sessions (server_step mbl srv (ReadDone this res)) this)) = []"
    by (simp add: st reads_release s1 gs)
  show "q \<noteq> this \<Longrightarrow> sessions (server_step mbl srv (ReadDone this res)) q = sessions srv q"
    by (simp add: st sessions_release_other o1)
  show "\<not> owned this (server_step mbl srv (ReadDone this res)) \<and>
      write_msgs (sessions (server_step mbl srv (ReadDone this res)) this) = [] \<and>
      \<not> is_open (socket (sessions (server_step mbl srv (ReadDone this res)) this)) \<and>
      closes (socket (sessions (server_step mbl srv (ReadDone this res)) this)) =
        (if is_open (socket (sessions srv this)) then Suc (closes (socket (sessions srv this)))
         else closes (socket (sessions srv this)))"
    if w: "writes (socket (sessions srv this)) = []"
  proof -
    have u: "\<not> owned this ?s1" using ow w by simp
    have e: "server_step mbl srv (ReadDone this res) = upd_session this destroy ?s1"
      using u by (simp add: st release_unowned)
    have "\<not> owned this (upd_session this destroy ?s1)"
      using u
      by (simp add: owned_def sessions_upd_session room_upd_session destroy_def socket_close_def
          upd_session_def)
    then show ?thesis
      by (simp add: e sessions_upd_session s1 destroy_def socket_close_def gs)
  qed
  show "session_view this (server_step mbl srv (ReadDone this res)) = session_view this srv \<and>
      is_open (socket (sessions (server_step mbl srv (ReadDone this res)) this)) =
        is_open (socket (sessions srv this)) \<and>
      closes (socket (sessions (server_step mbl srv (ReadDone this res)) this)) =
        closes (socket (sessions srv this))"
    if w: "writes (socket (sessions srv this)) \<noteq> []"
  proof -
    have "owned this ?s1" using ow w by simp
    then have "server_step mbl srv (ReadDone this res) = ?s1" by (simp add: st release_owned)
    then show ?thesis by (simp add: session_view_def s1 gs gw)
  qed
qed

text \<open>
  A session that has left the room and has no read outstanding lives as long as a write
  is outstanding: the write completion that leaves none destroys it.
\<close>

lemma last_write_step:
  assumes p: "this \<notin> set (participants (room srv))"
    and r: "reads (socket (sessions srv this)) = []"
    and n: "new_session srv \<noteq> this"
    and w: "writes (socket (sessions srv this)) = [f]"
  shows "error \<or> tl (write_msgs (sessions srv this)) = [] \<Longrightarrow>
      write_msgs (sessions (server_step mbl srv (WriteDone this error)) this) = [] \<and>
      \<not> is_open (socket (sessions (server_step mbl srv (WriteDone this error)) this)) \<and>
      closes (socket (sessions (server_step mbl srv (WriteDone this error)) this)) =
        (if is_open (socket (sessions srv this)) then Suc (closes (socket (sessions srv this)))
         else closes (socket (sessions srv this))) \<and>
      wire (socket (sessions (server_step mbl srv (WriteDone this error)) this)) =
        (if error then wire (socket (sessions srv this))
         else wire (socket (sessions srv this)) @ [f])"
    and "\<not> error \<and> tl (write_msgs (sessions srv this)) \<noteq> [] \<Longrightarrow>
      session_view this (server_step mbl srv (WriteDone this error)) =
        (tl (write_msgs (sessions srv this)), [hd (tl (write_msgs (sessions srv this)))],
         wire (socket (sessions srv this)) @ [f]) \<and>
      is_open (socket (sessions (server_step mbl srv (WriteDone this error)) this)) =
        is_open (socket (sessions srv this)) \<and>
      closes (socket (sessions (server_step mbl srv (WriteDone this error)) this)) =
        closes (socket (sessions srv this))"
proof -
  have e: "set_erase this (participants (room srv)) = participants (room srv)"
    using p by (simp add: set_erase_absent)
  show "write_msgs (sessions (server_step mbl srv (WriteDone this error)) this) = [] \<and>
      \<not> is_open (socket (sessions (server_step mbl srv (WriteDone this error)) this)) \<and>
      closes (socket (sessions (server_step mbl srv (WriteDone this error)) this)) =
        (if is_open (socket (sessions srv this)) then Suc (closes (socket (sessions srv this)))
         else closes (socket (sessions srv this))) \<and>
      wire (socket (sessions (server_step mbl srv (WriteDone this error)) this)) =
        (if error then wire (socket (sessions srv this))
         else wire (socket (sessions srv this)) @ [f])"
    if "error \<or> tl (write_msgs (sessions srv this)) = []"
    using that p r n w e
    by (auto simp: server_step_def write_complete_def handle_write_def release_def owned_def
        destroy_def socket_close_def ChatRoom_leave_def upd_room_def upd_session_def Let_def
        async_write_def)
  show "session_view this (server_step mbl srv (WriteDone this error)) =
        (tl (write_msgs (sessions srv this)), [hd (tl (write_msgs (sessions srv this)))],
         wire (socket (sessions srv this)) @ [f]) \<and>
      is_open (socket (sessions (server_step mbl srv (WriteDone this error)) this)) =
        is_open (socket (sessions srv this)) \<and>
      closes (socket (sessions (server_step mbl srv (WriteDone this error)) this)) =
        closes (socket (sessions srv this))"
    if "\<not> error \<and> tl (write_msgs (sessions srv this)) \<noteq> []"
    using that p r n w
    by (auto simp: server_step_def write_complete_def handle_write_def release_def owned_def
        session_view_def upd_session_def Let_def async_write_def)
qed


lemma reads_foldl_upd_session:
  assumes "\<And>s. reads (socket (f s)) = reads (socket s)"
  shows "reads (socket (sessions (foldl (\<lambda>s p. upd_session p f s) srv ps) q)) =
    reads (socket (sessions srv q))"
  by (induction ps arbitrary: srv) (simp_all add: sessions_upd_session assms)

lemma new_session_foldl_upd_session:
  "new_session (foldl (\<lambda>s p. upd_session p f s) srv ps) = new_session srv"
  by (induction ps arbitrary: srv) (simp_all add: upd_session_def)

lemma reads_ChatRoom_deliver:
  "reads (socket (sessions (ChatRoom_deliver msg srv) q)) = reads (socket (sessions srv q))"
  by (simp add: ChatRoom_deliver_def Let_def reads_foldl_upd_session reads_ChatSession_deliver
      sessions_upd_room)

lemma new_session_ChatRoom_deliver: "new_session (ChatRoom_deliver msg srv) = new_session srv"
  by (simp add: ChatRoom_deliver_def Let_def new_session_foldl_upd_session upd_room_def)

lemma one_read_release: "one_read srv \<Longrightarrow> one_read (release p srv)"
  by (simp add: one_read_def reads_release new_session_release)

lemma one_read_start_accept:
  "\<forall>p. length (reads (socket (sessions srv p))) \<le> 1 \<Longrightarrow> one_read (start_accept srv)"
  by (simp add: one_read_def start_accept_def ChatSession_new_def socket_new_def)

lemma one_read_accept_complete: "one_read srv \<Longrightarrow> one_read (accept_complete error srv)"
  unfolding accept_complete_def handle_accept_def
  by (rule one_read_start_accept)
    (auto simp: one_read_def sessions_ChatSession_start sessions_upd_session room_upd_session
      reads_replay async_read_def)

lemma one_read_read_complete: "one_read srv \<Longrightarrow> one_read (read_complete mbl res p srv)"
proof -
  assume o: "one_read srv"
  show ?thesis
  proof (cases "reads (socket (sessions srv p))")
    case Nil
    with o show ?thesis by (simp add: read_complete_def)
  next
    case (Cons op ops)
    with o have ops: "ops = []" and np: "new_session srv \<noteq> p"
      using o by (auto simp: one_read_def dest: spec [where x = p])
    from o Cons ops np show ?thesis
      by (auto simp: one_read_def read_complete_def handle_read_header_def handle_read_body_def
          Let_def sessions_upd_session sessions_ChatRoom_leave reads_ChatRoom_deliver
          new_session_ChatRoom_deliver ChatRoom_leave_def upd_room_def upd_session_def
          async_read_def
          split: read_op.splits io_result.splits sum.splits)
  qed
qed

lemma one_read_write_complete: "one_read srv \<Longrightarrow> one_read (write_complete error p srv)"
  by (auto simp: one_read_def write_complete_def handle_write_def Let_def ChatRoom_leave_def
      upd_room_def upd_session_def async_write_def split: list.splits)

lemma one_read_server_step: "one_read srv \<Longrightarrow> one_read (server_step mbl srv c)"
  by (cases c)
    (simp_all add: server_step_def one_read_release one_read_accept_complete
      one_read_read_complete one_read_write_complete)

lemma one_read_reachable: "one_read (foldl (server_step mbl) (ChatServer_new endpoint) cs)"
proof -
  have "one_read srv \<Longrightarrow> one_read (foldl (server_step mbl) srv cs)" for srv
    by (induction cs arbitrary: srv) (simp_all add: one_read_server_step)
  moreover have "one_read (ChatServer_new endpoint)"
    by (simp add: one_read_def ChatServer_new_def start_accept_def ChatSession_new_def
        socket_new_def)
  ultimately show ?thesis by blast
qed

lemma sessions_foldl_upd_session_notin:
  "q \<notin> set ps \<Longrightarrow> sessions (foldl (\<lambda>s p. upd_session p f s) srv ps) q = sessions srv q"
  by (induction ps arbitrary: srv) (simp_all add: sessions_upd_session)

lemma sessions_foldl_upd_session_pres:
  assumes "\<And>s. P s \<Longrightarrow> P (f s)" and "P (sessions srv q)"
  shows "P (sessions (foldl (\<lambda>s p. upd_session p f s) srv ps) q)"
  using assms(2)
proof (induction ps arbitrary: srv)
  case Nil
  then show ?case by simp
next
  case (Cons a ps)
  have "P (sessions (upd_session a f srv) q)"
    using Cons.prems assms(1) [of "sessions srv q"] by (auto simp: sessions_upd_session)
  then have "P (sessions (foldl (\<lambda>s p. upd_session p f s) (upd_session a f srv) ps) q)"
    by (rule Cons.IH)
  then show ?case by simp
qed

lemma sessions_ChatRoom_deliver_notin:
  "q \<notin> set (participants (room srv)) \<Longrightarrow> sessions (ChatRoom_deliver msg srv) q = sessions srv q"
  by (simp add: ChatRoom_deliver_def Let_def sessions_foldl_upd_session_notin room_upd_room
      sessions_upd_room)

lemma sessions_ChatRoom_deliver_pres:
  assumes "\<And>s. P s \<Longrightarrow> P (ChatSession_deliver msg s)" and "P (sessions srv q)"
  shows "P (sessions (ChatRoom_deliver msg srv) q)"
  unfolding ChatRoom_deliver_def Let_def
  by (rule sessions_foldl_upd_session_pres) (simp_all add: assms sessions_upd_room)

lemma open_ChatSession_deliver:
  "is_open (socket s) \<and> closes (socket s) = 0 \<Longrightarrow>
   is_open (socket (ChatSession_deliver msg s)) \<and> closes (socket (ChatSession_deliver msg s)) = 0"
  by (simp add: ChatSession_deliver_def Let_def async_write_def)

lemma open_replay:
  "is_open (socket s) \<and> closes (socket s) = 0 \<Longrightarrow>
   is_open (socket (replay ms s)) \<and> closes (socket (replay ms s)) = 0"
  unfolding replay_def
  by (induction ms arbitrary: s) (simp_all add: open_ChatSession_deliver)

lemma live_open_release: "live_open srv \<Longrightarrow> live_open (release p srv)"
  by (auto simp: live_open_def busy_def release_def owned_def upd_session_def destroy_def
      socket_close_def)

lemma ChatRoom_join_alt:
  "ChatRoom_join p srv =
   upd_session p (replay (recent_msgs (room srv)))
     (upd_room (\<lambda>r. r\<lparr>participants := set_insert p (participants r)\<rparr>) srv)"
  by (simp add: ChatRoom_join_def Let_def foldl_upd_session_one room_upd_room)

lemma live_open_start_accept:
  assumes a: "allocated srv = Suc (new_session srv)"
    and b: "\<And>p. busy p srv \<Longrightarrow>
       p \<le> new_session srv \<and> is_open (socket (sessions srv p)) \<and> closes (socket (sessions srv p)) = 0"
  shows "live_open (start_accept srv)"
proof -
  have "p < new_session (start_accept srv) \<and> is_open (socket (sessions (start_accept srv) p)) \<and>
      closes (socket (sessions (start_accept srv) p)) = 0" if "busy p (start_accept srv)" for p
  proof -
    have "busy p srv"
      using that
      by (auto simp: busy_def start_accept_def ChatSession_new_def socket_new_def
          split: if_splits)
    then have c: "p \<le> new_session srv \<and> is_open (socket (sessions srv p)) \<and>
        closes (socket (sessions srv p)) = 0" by (rule b)
    then have "p \<noteq> allocated srv" using a by simp
    with c a show ?thesis by (simp add: start_accept_def)
  qed
  then show ?thesis
    by (simp add: live_open_def) (simp add: start_accept_def)
qed

lemma live_open_accept_complete: "live_open srv \<Longrightarrow> live_open (accept_complete error srv)"
proof -
  assume l: "live_open srv"
  show ?thesis
  proof (cases error)
    case True
    with l show ?thesis
      unfolding accept_complete_def handle_accept_def
      by (intro live_open_start_accept) (auto simp: live_open_def dest: less_imp_le)
  next
    case False
    let ?n = "new_session srv"
    let ?s1 = "upd_session ?n (\<lambda>s. s\<lparr>socket := (socket s)\<lparr>is_open := True\<rparr>\<rparr>) srv"
    have n: "new_session (ChatSession_start ?n ?s1) = ?n"
      "allocated (ChatSession_start ?n ?s1) = allocated srv"
      by (simp_all add: ChatSession_start_def ChatRoom_join_alt)
        (simp_all add: upd_session_def upd_room_def)
    have b: "p \<le> ?n \<and> is_open (socket (sessions (ChatSession_start ?n ?s1) p)) \<and>
        closes (socket (sessions (ChatSession_start ?n ?s1) p)) = 0"
      if "busy p (ChatSession_start ?n ?s1)" for p
    proof (cases "p = ?n")
      case True
      have "is_open (socket (sessions ?s1 ?n)) \<and> closes (socket (sessions ?s1 ?n)) = 0"
        using l by (simp add: sessions_upd_session live_open_def ChatSession_new_def socket_new_def)
      then have "is_open (socket (replay (recent_msgs (room ?s1)) (sessions ?s1 ?n))) \<and>
          closes (socket (replay (recent_msgs (room ?s1)) (sessions ?s1 ?n))) = 0"
        by (rule open_replay)
      with True show ?thesis
        by (simp add: sessions_ChatSession_start async_read_def)
    next
      case False
      with that have "busy p srv"
        by (simp add: busy_def sessions_ChatSession_start room_ChatSession_start
            room_ChatRoom_join set_set_insert room_upd_session sessions_upd_session)
      with l False show ?thesis
        by (auto simp: live_open_def sessions_ChatSession_start sessions_upd_session
            dest: less_imp_le)
    qed
    show ?thesis
      using False l unfolding accept_complete_def handle_accept_def
      by (simp, intro live_open_start_accept) (simp_all add: n b live_open_def)
  qed
qed


lemma live_open_pres:
  assumes l: "live_open srv"
    and n: "new_session srv' = new_session srv" "allocated srv' = allocated srv"
    and f: "sessions srv' (new_session srv) = sessions srv (new_session srv)"
    and b: "\<And>q. busy q srv' \<Longrightarrow> busy q srv"
    and c: "\<And>q. busy q srv \<Longrightarrow>
      is_open (socket (sessions srv q)) \<and> closes (socket (sessions srv q)) = 0 \<Longrightarrow>
      is_open (socket (sessions srv' q)) \<and> closes (socket (sessions srv' q)) = 0"
  shows "live_open srv'"
  using l n f by (auto simp: live_open_def dest: b c)

lemma allocated_foldl_upd_session:
  "allocated (foldl (\<lambda>s p. upd_session p f s) srv ps) = allocated srv"
  by (induction ps arbitrary: srv) (simp_all add: upd_session_def)

lemma allocated_ChatRoom_deliver: "allocated (ChatRoom_deliver msg srv) = allocated srv"
  by (simp add: ChatRoom_deliver_def Let_def allocated_foldl_upd_session upd_room_def)

lemma busy_ChatRoom_deliver: "busy q (ChatRoom_deliver msg srv) \<Longrightarrow> busy q srv"
  by (cases "q \<in> set (participants (room srv))")
    (simp_all add: busy_def participants_ChatRoom_deliver sessions_ChatRoom_deliver_notin)

lemma live_open_ChatRoom_deliver:
  assumes "live_open srv"
  shows "live_open (ChatRoom_deliver msg srv)"
proof (rule live_open_pres [OF assms])
  show "new_session (ChatRoom_deliver msg srv) = new_session srv"
    by (rule new_session_ChatRoom_deliver)
  show "allocated (ChatRoom_deliver msg srv) = allocated srv"
    by (rule allocated_ChatRoom_deliver)
  have "\<not> busy (new_session srv) srv" using assms by (auto simp: live_open_def)
  then have "new_session srv \<notin> set (participants (room srv))" by (simp add: busy_def)
  then show "sessions (ChatRoom_deliver msg srv) (new_session srv) = sessions srv (new_session srv)"
    by (rule sessions_ChatRoom_deliver_notin)
  show "busy q srv" if "busy q (ChatRoom_deliver msg srv)" for q
    using that by (rule busy_ChatRoom_deliver)
  show "is_open (socket (sessions (ChatRoom_deliver msg srv) q)) \<and>
      closes (socket (sessions (ChatRoom_deliver msg srv) q)) = 0"
    if "is_open (socket (sessions srv q)) \<and> closes (socket (sessions srv q)) = 0" for q
    using sessions_ChatRoom_deliver_pres
      [where P = "\<lambda>s. is_open (socket s) \<and> closes (socket s) = 0" and msg = msg
         and srv = srv and q = q] open_ChatSession_deliver [of _ msg] that
    by blast
qed

lemma live_open_ChatRoom_leave: "live_open srv \<Longrightarrow> live_open (ChatRoom_leave p srv)"
  by (auto simp: live_open_def busy_def ChatRoom_leave_def upd_room_def set_erase_def)

text \<open>
  Changing one busy session keeps the invariant when the change neither closes nor
  reopens its socket.
\<close>

lemma live_open_upd_session:
  assumes "live_open srv" and "busy p srv"
    and "is_open (socket (g (sessions srv p))) = is_open (socket (sessions srv p))"
    and "closes (socket (g (sessions srv p))) = closes (socket (sessions srv p))"
  shows "live_open (upd_session p g srv)"
proof -
  have "p \<noteq> new_session srv" using assms(1,2) by (auto simp: live_open_def)
  with assms show ?thesis
    by (auto simp: live_open_def busy_def upd_session_def)
qed

lemma busy_upd_session_same:
  "busy p srv \<Longrightarrow> reads (socket (g (sessions srv p))) \<noteq> [] \<Longrightarrow> busy p (upd_session p g srv)"
  by (simp add: busy_def upd_session_def)


lemma live_open_upd_session_open:
  assumes "live_open srv" and "p < new_session srv"
    and "is_open (socket (g (sessions srv p))) \<and> closes (socket (g (sessions srv p))) = 0"
  shows "live_open (upd_session p g srv)"
  using assms by (auto simp: live_open_def busy_def upd_session_def)

lemma new_session_upd_session: "new_session (upd_session p g srv) = new_session srv"
  by (simp add: upd_session_def)

lemma live_open_busy:
  "live_open srv \<Longrightarrow> busy p srv \<Longrightarrow>
   p < new_session srv \<and> is_open (socket (sessions srv p)) \<and> closes (socket (sessions srv p)) = 0"
  by (simp add: live_open_def)

lemma live_open_read_complete:
  assumes l: "live_open srv"
  shows "live_open (read_complete mbl res p srv)"
proof (cases "reads (socket (sessions srv p))")
  case Nil
  with l show ?thesis by (simp add: read_complete_def)
next
  case (Cons op ops)
  then have "busy p srv" by (simp add: busy_def)
  with l have b: "p < new_session srv" and o: "is_open (socket (sessions srv p))"
    and c: "closes (socket (sessions srv p)) = 0"
    using live_open_busy by blast+
  let ?s1 = "upd_session p (\<lambda>s. s\<lparr>socket := (socket s)\<lparr>reads := ops\<rparr>\<rparr>) srv"
  have l1: "live_open ?s1"
    using l b o c by (intro live_open_upd_session_open) simp_all
  have o1: "is_open (socket (sessions ?s1 p)) \<and> closes (socket (sessions ?s1 p)) = 0"
    using o c by (simp add: sessions_upd_session)
  have n1: "p < new_session ?s1" using b by (simp add: new_session_upd_session)
  have hdr: "live_open (handle_read_header mbl error p s)"
    if "live_open s" "p < new_session s"
      "is_open (socket (sessions s p)) \<and> closes (socket (sessions s p)) = 0" for error s
    using that
    by (auto simp: handle_read_header_def live_open_ChatRoom_leave async_read_def
        intro!: live_open_upd_session_open split: sum.splits)
  have bdy: "live_open (handle_read_body error p s)"
    if ls: "live_open s" and ps: "p < new_session s"
      and os: "is_open (socket (sessions s p)) \<and> closes (socket (sessions s p)) = 0" for error s
  proof (cases error)
    case True
    with ls show ?thesis by (simp add: handle_read_body_def live_open_ChatRoom_leave)
  next
    case False
    let ?d = "ChatRoom_deliver (read_msg (sessions s p)) s"
    have "live_open ?d" using ls by (rule live_open_ChatRoom_deliver)
    moreover have "p < new_session ?d" using ps by (simp add: new_session_ChatRoom_deliver)
    moreover have "is_open (socket (sessions ?d p)) \<and> closes (socket (sessions ?d p)) = 0"
      using sessions_ChatRoom_deliver_pres
        [where P = "\<lambda>s. is_open (socket s) \<and> closes (socket s) = 0"
           and msg = "read_msg (sessions s p)" and srv = s and q = p]
        open_ChatSession_deliver [of _ "read_msg (sessions s p)"] os
      by blast
    ultimately show ?thesis
      using False
      by (simp add: handle_read_body_def)
        (intro live_open_upd_session_open, simp_all add: async_read_def)
  qed
  have upd: "live_open (upd_session p g ?s1) \<and> p < new_session (upd_session p g ?s1) \<and>
      is_open (socket (sessions (upd_session p g ?s1) p)) \<and>
      closes (socket (sessions (upd_session p g ?s1) p)) = 0"
    if "\<And>s. socket (g s) = socket s" for g
    using l1 n1 o1 that
    by (simp add: new_session_upd_session sessions_upd_session live_open_upd_session_open)
  show ?thesis
  proof (cases op)
    case ReadHeader
    show ?thesis
    proof (cases res)
      case Failed
      with Cons ReadHeader show ?thesis
        by (simp add: read_complete_def Let_def hdr [OF l1 n1 o1])
    next
      case (Done bytes)
      have "live_open (handle_read_header mbl False p
          (upd_session p (\<lambda>s. s\<lparr>read_msg := (read_msg s)\<lparr>header := bytes\<rparr>\<rparr>) ?s1))"
        using upd [of "\<lambda>s. s\<lparr>read_msg := (read_msg s)\<lparr>header := bytes\<rparr>\<rparr>"]
        by (intro hdr) simp_all
      with Cons ReadHeader Done show ?thesis by (simp add: read_complete_def Let_def)
    qed
  next
    case (ReadBody k)
    show ?thesis
    proof (cases res)
      case Failed
      with Cons ReadBody show ?thesis
        by (simp add: read_complete_def Let_def bdy [OF l1 n1 o1])
    next
      case (Done bytes)
      have "live_open (handle_read_body False p
          (upd_session p (\<lambda>s. s\<lparr>read_msg := (read_msg s)\<lparr>body := bytes\<rparr>\<rparr>) ?s1))"
        using upd [of "\<lambda>s. s\<lparr>read_msg := (read_msg s)\<lparr>body := bytes\<rparr>\<rparr>"]
        by (intro bdy) simp_all
      with Cons ReadBody Done show ?thesis by (simp add: read_complete_def Let_def)
    qed
  qed
qed

lemma live_open_write_complete:
  assumes l: "live_open srv"
  shows "live_open (write_complete error p srv)"
proof (cases "writes (socket (sessions srv p))")
  case Nil
  with l show ?thesis by (simp add: write_complete_def)
next
  case (Cons m ms)
  then have "busy p srv" by (simp add: busy_def)
  with l have b: "p < new_session srv" and o: "is_open (socket (sessions srv p))"
    and c: "closes (socket (sessions srv p)) = 0"
    using live_open_busy by blast+
  let ?s1 = "upd_session p
      (\<lambda>s. s\<lparr>socket := (socket s)\<lparr>writes := ms,
                wire := (if error then wire (socket s) else wire (socket s) @ [m])\<rparr>\<rparr>) srv"
  have l1: "live_open ?s1"
    using l b o c by (intro live_open_upd_session_open) simp_all
  have o1: "is_open (socket (sessions ?s1 p)) \<and> closes (socket (sessions ?s1 p)) = 0"
    using o c by (simp add: sessions_upd_session)
  have n1: "p < new_session ?s1" using b by (simp add: new_session_upd_session)
  have "live_open (handle_write error p ?s1)"
  proof (cases error)
    case True
    with l1 show ?thesis by (simp add: handle_write_def live_open_ChatRoom_leave)
  next
    case False
    have "live_open (upd_session p
        (\<lambda>s. let s1 = s\<lparr>write_msgs := tl (write_msgs s)\<rparr>
              in if write_msgs s1 \<noteq> []
                 then s1\<lparr>socket := async_write (hd (write_msgs s1)) (socket s1)\<rparr>
                 else s1) ?s1)"
      by (rule live_open_upd_session_open [OF l1 n1])
        (use o1 in \<open>simp add: Let_def async_write_def\<close>)
    with False show ?thesis by (simp only: handle_write_def if_True simp_thms)
  qed
  with Cons show ?thesis by (simp add: write_complete_def)
qed

lemma live_open_server_step: "live_open srv \<Longrightarrow> live_open (server_step mbl srv c)"
  by (cases c)
    (simp_all add: server_step_def live_open_release live_open_accept_complete
      live_open_read_complete live_open_write_complete)

lemma live_open_reachable: "live_open (foldl (server_step mbl) (ChatServer_new endpoint) cs)"
proof -
  have "live_open srv \<Longrightarrow> live_open (foldl (server_step mbl) srv cs)" for srv
    by (induction cs arbitrary: srv) (simp_all add: live_open_server_step)
  moreover have "live_open (ChatServer_new endpoint)"
    by (simp add: live_open_def busy_def ChatServer_new_def start_accept_def ChatSession_new_def
        socket_new_def)
  ultimately show ?thesis by blast
qed

lemma front_written_ChatSession_deliver:
  "front_written s \<Longrightarrow> front_written (ChatSession_deliver msg s)"
  by (auto simp: front_written_def ChatSession_deliver_def Let_def async_write_def)

lemma front_written_replay: "front_written s \<Longrightarrow> front_written (replay ms s)"
  unfolding replay_def
  by (induction ms arbitrary: s) (simp_all add: front_written_ChatSession_deliver)

lemma one_write_ChatRoom_deliver: "one_write srv \<Longrightarrow> one_write (ChatRoom_deliver msg srv)"
  unfolding one_write_def
  using sessions_ChatRoom_deliver_pres [where P = front_written and msg = msg and srv = srv]
    front_written_ChatSession_deliver [of _ msg]
  by blast

lemma one_write_upd_session:
  "one_write srv \<Longrightarrow> front_written (g (sessions srv p)) \<Longrightarrow> one_write (upd_session p g srv)"
  by (simp add: one_write_def upd_session_def)

lemma one_write_ChatRoom_leave: "one_write srv \<Longrightarrow> one_write (ChatRoom_leave p srv)"
  by (simp add: one_write_def sessions_ChatRoom_leave)

lemma one_write_release: "one_write srv \<Longrightarrow> one_write (release p srv)"
  by (auto simp: one_write_def release_def owned_def upd_session_def destroy_def
      socket_close_def front_written_def)

lemma one_write_start_accept: "one_write srv \<Longrightarrow> one_write (start_accept srv)"
  by (simp add: one_write_def start_accept_def front_written_def ChatSession_new_def socket_new_def)

lemma one_write_ChatSession_start: "one_write srv \<Longrightarrow> one_write (ChatSession_start p srv)"
  unfolding one_write_def
proof
  fix q assume a: "\<forall>p. front_written (sessions srv p)"
  then have "front_written (replay (recent_msgs (room srv)) (sessions srv p))"
    by (simp add: front_written_replay)
  then have "front_written ((replay (recent_msgs (room srv)) (sessions srv p))
      \<lparr>socket := async_read ReadHeader (socket (replay (recent_msgs (room srv)) (sessions srv p)))\<rparr>)"
    by (simp add: front_written_def async_read_def)
  with a show "front_written (sessions (ChatSession_start p srv) q)"
    by (simp add: sessions_ChatSession_start)
qed

lemma one_write_accept_complete: "one_write srv \<Longrightarrow> one_write (accept_complete error srv)"
proof -
  assume o: "one_write srv"
  have "one_write (upd_session (new_session srv)
      (\<lambda>s. s\<lparr>socket := (socket s)\<lparr>is_open := True\<rparr>\<rparr>) srv)"
    using o by (rule one_write_upd_session) (use o in \<open>simp add: one_write_def front_written_def\<close>)
  then have "one_write (ChatSession_start (new_session srv) (upd_session (new_session srv)
      (\<lambda>s. s\<lparr>socket := (socket s)\<lparr>is_open := True\<rparr>\<rparr>) srv))"
    by (rule one_write_ChatSession_start)
  with o show ?thesis
    by (simp add: accept_complete_def handle_accept_def one_write_start_accept)
qed

lemma one_write_handle_read_header:
  "one_write srv \<Longrightarrow> one_write (handle_read_header mbl error p srv)"
  by (auto simp: handle_read_header_def sessions_ChatRoom_leave async_read_def one_write_def
      front_written_def upd_session_def split: sum.splits)

lemma one_write_handle_read_body: "one_write srv \<Longrightarrow> one_write (handle_read_body error p srv)"
proof (cases error)
  case True
  assume "one_write srv"
  with True show ?thesis by (simp add: handle_read_body_def one_write_ChatRoom_leave)
next
  case False
  assume "one_write srv"
  then have d: "one_write (ChatRoom_deliver (read_msg (sessions srv p)) srv)"
    by (rule one_write_ChatRoom_deliver)
  show ?thesis
    using False d
    by (simp add: handle_read_body_def)
      (auto simp: one_write_def front_written_def upd_session_def async_read_def)
qed

lemma one_write_read_complete: "one_write srv \<Longrightarrow> one_write (read_complete mbl res p srv)"
proof -
  assume o: "one_write srv"
  have u: "one_write (upd_session p g srv)"
    if "\<And>s. writes (socket (g s)) = writes (socket s) \<and> write_msgs (g s) = write_msgs s" for g
  proof (rule one_write_upd_session [OF o])
    have "front_written (sessions srv p)" using o by (simp add: one_write_def)
    then show "front_written (g (sessions srv p))" by (simp add: front_written_def that)
  qed
  show ?thesis
  proof (cases "reads (socket (sessions srv p))")
    case Nil
    with o show ?thesis by (simp add: read_complete_def)
  next
    case (Cons op ops)
    let ?s1 = "upd_session p (\<lambda>s. s\<lparr>socket := (socket s)\<lparr>reads := ops\<rparr>\<rparr>) srv"
    have o1: "one_write ?s1" by (rule u) simp
    have o2: "one_write (upd_session p g ?s1)"
      if "\<And>s. writes (socket (g s)) = writes (socket s) \<and> write_msgs (g s) = write_msgs s" for g
    proof (rule one_write_upd_session [OF o1])
      have "front_written (sessions ?s1 p)" using o1 by (simp add: one_write_def)
      then show "front_written (g (sessions ?s1 p))" by (simp add: front_written_def that)
    qed
    have h: "one_write (upd_session p (\<lambda>s. s\<lparr>read_msg := (read_msg s)\<lparr>header := bytes\<rparr>\<rparr>) ?s1)"
      for bytes by (rule o2) simp
    have b: "one_write (upd_session p (\<lambda>s. s\<lparr>read_msg := (read_msg s)\<lparr>body := bytes\<rparr>\<rparr>) ?s1)"
      for bytes by (rule o2) simp
    show ?thesis
    proof (cases op)
      case ReadHeader
      with Cons o1 h show ?thesis
        by (cases res) (simp_all add: read_complete_def Let_def one_write_handle_read_header)
    next
      case (ReadBody k)
      with Cons o1 b show ?thesis
        by (cases res) (simp_all add: read_complete_def Let_def one_write_handle_read_body)
    qed
  qed
qed

lemma one_write_write_complete: "one_write srv \<Longrightarrow> one_write (write_complete error p srv)"
proof -
  assume o: "one_write srv"
  show ?thesis
  proof (cases "writes (socket (sessions srv p))")
    case Nil
    with o show ?thesis by (simp add: write_complete_def)
  next
    case (Cons m ms)
    have "front_written (sessions srv p)" using o by (simp add: one_write_def)
    with Cons have ms: "ms = []" by (simp add: front_written_def)
    let ?s1 = "upd_session p
      (\<lambda>s. s\<lparr>socket := (socket s)\<lparr>writes := ms,
                wire := (if error then wire (socket s) else wire (socket s) @ [m])\<rparr>\<rparr>) srv"
    have o1: "one_write ?s1"
      using o by (rule one_write_upd_session) (simp add: front_written_def ms)
    have w1: "writes (socket (sessions ?s1 p)) = []"
      by (simp add: sessions_upd_session ms)
    have "one_write (handle_write error p ?s1)"
    proof (cases error)
      case True
      with o1 show ?thesis by (simp add: handle_write_def one_write_ChatRoom_leave)
    next
      case False
      have "one_write (upd_session p
        (\<lambda>s. let s1 = s\<lparr>write_msgs := tl (write_msgs s)\<rparr>
              in if write_msgs s1 \<noteq> []
                 then s1\<lparr>socket := async_write (hd (write_msgs s1)) (socket s1)\<rparr>
                 else s1) ?s1)"
        by (rule one_write_upd_session [OF o1])
          (use w1 in \<open>simp add: front_written_def Let_def async_write_def\<close>)
      with False show ?thesis by (simp only: handle_write_def if_True simp_thms)
    qed
    with Cons show ?thesis by (simp add: write_complete_def)
  qed
qed

lemma one_write_server_step: "one_write srv \<Longrightarrow> one_write (server_step mbl srv c)"
  by (cases c)
    (simp_all add: server_step_def one_write_release one_write_accept_complete
      one_write_read_complete one_write_write_complete)

lemma one_write_reachable: "one_write (foldl (server_step mbl) (ChatServer_new endpoint) cs)"
proof -
  have "one_write srv \<Longrightarrow> one_write (foldl (server_step mbl) srv cs)" for srv
    by (induction cs arbitrary: srv) (simp_all add: one_write_server_step)
  moreover have "one_write (ChatServer_new endpoint)"
    by (simp add: one_write_def front_written_def ChatServer_new_def start_accept_def
        ChatSession_new_def socket_new_def)
  ultimately show ?thesis by blast
qed

lemma new_session_read_complete:
  "new_session (read_complete mbl res p srv) = new_session srv"
  by (simp add: read_complete_def handle_read_header_def handle_read_body_def Let_def
      new_session_ChatRoom_deliver ChatRoom_leave_def upd_room_def upd_session_def
      split: list.splits read_op.splits io_result.splits sum.splits)

lemma busy_new_session: "new_session busy_server = 1"
  by (simp add: busy_server_def step_defs decode_header_5 pop_excess_short hello_def world_def)

lemma idle_session:
  "sessions idle_server 0 =
     \<lparr>socket = \<lparr>is_open = True, reads = [ReadHeader], writes = [], wire = [], closes = 0\<rparr>,
      read_msg = ChatMessage_new, write_msgs = []\<rparr>"
  by (simp add: idle_server_def step_defs)

lemma idle_room: "room idle_server = \<lparr>participants = [0], recent_msgs = []\<rparr>"
  by (simp add: idle_server_def step_defs)

lemma idle_new_session: "new_session idle_server = 1"
  by (simp add: idle_server_def step_defs)

section \<open>Claims about the frame codec\<close>

text \<open>
  C7. With a header wide enough for the largest body length (\<open>0 < hl\<close> and
  \<open>mbl < 10 ^ hl\<close>), every body length \<open>b \<le> mbl\<close> survives encoding and decoding:
  \<open>decode_header (encode_header b)\<close> succeeds and returns \<open>b\<close>. Decoding fails on every
  header that is not numeric, on every header whose value exceeds \<open>mbl\<close>, and in
  particular on every header that holds a character that is neither padding nor a digit.
\<close>

theorem C7_codec_round_trip:
  "(0 < hl \<and> mbl < 10 ^ hl \<and> b \<le> mbl \<longrightarrow> decode_header mbl (encode_header hl b) = Inr b) \<and>
   (\<not> numeric h \<or> mbl < header_value h \<longrightarrow> decode_header mbl h = Inl InvalidHeader) \<and>
   (c \<in> set h \<and> c \<noteq> space \<and> \<not> is_digit c \<longrightarrow> decode_header mbl h = Inl InvalidHeader)"
proof (intro conjI impI)
  assume "0 < hl \<and> mbl < 10 ^ hl \<and> b \<le> mbl"
  then show "decode_header mbl (encode_header hl b) = Inr b"
    by (simp add: decode_encode)
next
  assume "\<not> numeric h \<or> mbl < header_value h"
  then show "decode_header mbl h = Inl InvalidHeader"
    by (auto simp: decode_header_def)
next
  assume "c \<in> set h \<and> c \<noteq> space \<and> \<not> is_digit c"
  then have "\<not> numeric h" using not_numeric_if_foreign_char [of c h] by simp
  then show "decode_header mbl h = Inl InvalidHeader"
    by (simp add: decode_header_def)
qed

theorem C7_codec_round_trip_witness:
  "decode_header 512 (encode_header 4 37) = Inr 37 \<and>
   encode_header 4 37 = ''  37'' \<and>
   decode_header 512 ''0513'' = Inl InvalidHeader \<and>
   decode_header 512 ''12a4'' = Inl InvalidHeader"
proof -
  have e: "encode_header 4 37 = ''  37''" by code_simp
  have v: "header_value ''0513'' = 513" by code_simp
  have a: "CHR ''a'' \<in> set ''12a4'' \<and> CHR ''a'' \<noteq> space \<and> \<not> is_digit CHR ''a''"
    by (simp add: space_def is_digit_def)
  show ?thesis
    using C7_codec_round_trip [of 4 512 37 "''0513''" "CHR ''a''"]
      C7_codec_round_trip [of 4 512 37 "''12a4''" "CHR ''a''"] e v a
    by simp
qed

section \<open>Claims about the room\<close>

text \<open>
  C2. After every \<open>deliver\<close> the recent history holds at most 100 messages: the message
  is appended and the excess is dropped at the front, oldest first. So after any
  sequence of deliveries to the room of a new server the history is that sequence when it
  has at most 100 messages, and exactly its last 100 messages, in delivery order,
  otherwise.
\<close>

theorem C2_recent_history_bounded:
  "length (recent_msgs (room (ChatRoom_deliver msg srv))) \<le> 100 \<and>
   recent_msgs (room (ChatRoom_deliver msg srv)) =
     drop (Suc (length (recent_msgs (room srv))) - 100) (recent_msgs (room srv) @ [msg]) \<and>
   recent_msgs (room (deliver_all ms (ChatServer_new endpoint))) = drop (length ms - 100) ms \<and>
   length (recent_msgs (room (deliver_all ms (ChatServer_new endpoint)))) \<le> 100"
proof -
  have one: "recent_msgs (room (ChatRoom_deliver msg srv)) =
      drop (Suc (length (recent_msgs (room srv))) - 100) (recent_msgs (room srv) @ [msg])"
    using recent_msgs_ChatRoom_deliver [of msg srv] by (simp add: max_recent_msgs_def)
  have new: "recent_msgs (room (ChatServer_new endpoint)) = []"
    by (simp add: ChatServer_new_def start_accept_def)
  have all: "recent_msgs (room (deliver_all ms (ChatServer_new endpoint))) = drop (length ms - 100) ms"
    using recent_msgs_deliver_all [of "ChatServer_new endpoint" ms] new
    by (simp add: max_recent_msgs_def)
  show ?thesis
    by (simp only: one all) (simp, arith)
qed

text \<open>
  C10. \<open>join\<close> and \<open>leave\<close> change nothing of the room but its participant set (\<open>join\<close>
  inserts the participant, \<open>leave\<close> erases it), so the recent history is as before;
  \<open>leave\<close> touches no session; leaving twice is leaving once, and leaving a room one is
  not a member of changes nothing at all.
\<close>

theorem C10_join_leave_frame:
  "room (ChatRoom_join p srv) = (room srv)\<lparr>participants := set_insert p (participants (room srv))\<rparr> \<and>
   room (ChatRoom_leave p srv) = (room srv)\<lparr>participants := set_erase p (participants (room srv))\<rparr> \<and>
   recent_msgs (room (ChatRoom_join p srv)) = recent_msgs (room srv) \<and>
   recent_msgs (room (ChatRoom_leave p srv)) = recent_msgs (room srv) \<and>
   set (participants (room (ChatRoom_join p srv))) = insert p (set (participants (room srv))) \<and>
   set (participants (room (ChatRoom_leave p srv))) = set (participants (room srv)) - {p} \<and>
   sessions (ChatRoom_leave p srv) = sessions srv \<and>
   ChatRoom_leave p (ChatRoom_leave p srv) = ChatRoom_leave p srv \<and>
   (p \<notin> set (participants (room srv)) \<longrightarrow> ChatRoom_leave p srv = srv)"
  by (simp add: room_ChatRoom_join room_ChatRoom_leave set_set_insert sessions_ChatRoom_leave
      ChatRoom_leave_twice ChatRoom_leave_absent)
    (auto simp: set_erase_def)

theorem C10_join_leave_frame_witness:
  "ChatRoom_leave 3 (ChatServer_new 8000) = ChatServer_new 8000 \<and>
   ChatRoom_leave 3 (ChatRoom_leave 3 (ChatRoom_join 3 (ChatServer_new 8000))) =
     ChatRoom_leave 3 (ChatRoom_join 3 (ChatServer_new 8000)) \<and>
   participants (room (ChatRoom_join 3 (ChatServer_new 8000))) = [3] \<and>
   participants (room (ChatRoom_leave 3 (ChatRoom_join 3 (ChatServer_new 8000)))) = []"
proof -
  have new: "participants (room (ChatServer_new 8000)) = []"
    by (simp add: ChatServer_new_def start_accept_def)
  show ?thesis
    using C10_join_leave_frame [of 3 "ChatServer_new 8000"]
      C10_join_leave_frame [of 3 "ChatRoom_join 3 (ChatServer_new 8000)"] new
    by (simp add: set_insert_def set_erase_def)
qed

text \<open>
  C1. In every state of the room (its participants a set), \<open>join p\<close> inserts \<open>p\<close> into
  the participant set and enqueues the whole recent history, in its order, at \<open>p\<close> and at
  no other session; whatever is broadcast afterwards is enqueued at \<open>p\<close> behind that
  history. \<open>join\<close> itself issues no read; \<open>start\<close> issues the session's header read only
  after the join, when \<open>p\<close> is a participant and the history is already in its queue.
\<close>

theorem C1_join_replays_history:
  assumes "std_set (participants (room srv))"
  shows "set (participants (room (ChatRoom_join p srv))) = insert p (set (participants (room srv))) \<and>
    std_set (participants (room (ChatRoom_join p srv))) \<and>
    write_msgs (sessions (ChatRoom_join p srv) p) =
      write_msgs (sessions srv p) @ recent_msgs (room srv) \<and>
    (\<forall>q. q \<noteq> p \<longrightarrow> sessions (ChatRoom_join p srv) q = sessions srv q) \<and>
    write_msgs (sessions (deliver_all ms (ChatRoom_join p srv)) p) =
      write_msgs (sessions srv p) @ recent_msgs (room srv) @ ms \<and>
    reads (socket (sessions (ChatRoom_join p srv) p)) = reads (socket (sessions srv p)) \<and>
    reads (socket (sessions (ChatSession_start p srv) p)) =
      reads (socket (sessions srv p)) @ [ReadHeader] \<and>
    write_msgs (sessions (ChatSession_start p srv) p) =
      write_msgs (sessions srv p) @ recent_msgs (room srv) \<and>
    p \<in> set (participants (room (ChatSession_start p srv)))"
proof -
  let ?j = "ChatRoom_join p srv"
  have s: "std_set (participants (room ?j))"
    using assms by (simp add: room_ChatRoom_join std_set_set_insert)
  have m: "p \<in> set (participants (room ?j))"
    by (simp add: room_ChatRoom_join set_set_insert)
  have w: "write_msgs (sessions ?j p) = write_msgs (sessions srv p) @ recent_msgs (room srv)"
    by (simp add: sessions_ChatRoom_join write_msgs_replay)
  have a: "write_msgs (sessions (deliver_all ms ?j) p) =
      write_msgs (sessions srv p) @ recent_msgs (room srv) @ ms"
    using write_msgs_deliver_all [OF std_set_distinct [OF s] m, of ms] w by simp
  show ?thesis
    using s m w a
    by (simp add: room_ChatRoom_join set_set_insert sessions_ChatRoom_join reads_replay
        sessions_ChatSession_start room_ChatSession_start async_read_def write_msgs_replay)
qed

theorem C1_join_replays_history_witness:
  "std_set (participants (room sample_server)) \<and>
   participants (room (ChatRoom_join 5 sample_server)) = [1, 2, 5] \<and>
   write_msgs (sessions (ChatRoom_join 5 sample_server) 5) = [hello] \<and>
   sessions (ChatRoom_join 5 sample_server) 1 = ChatSession_new \<and>
   write_msgs (sessions (deliver_all [world] (ChatRoom_join 5 sample_server)) 5) = [hello, world] \<and>
   reads (socket (sessions (ChatRoom_join 5 sample_server) 5)) = [] \<and>
   reads (socket (sessions (ChatSession_start 5 sample_server) 5)) = [ReadHeader] \<and>
   write_msgs (sessions (ChatSession_start 5 sample_server) 5) = [hello]"
proof -
  have s: "std_set (participants (room sample_server))"
    by (simp add: sample_server_def std_set_def)
  have p: "participants (room (ChatRoom_join 5 sample_server)) = [1, 2, 5]"
    by (simp add: room_ChatRoom_join sample_server_def set_insert_def)
  have i: "sessions sample_server = (\<lambda>p. ChatSession_new)"
    "recent_msgs (room sample_server) = [hello]"
    by (simp_all add: sample_server_def)
  show ?thesis
    using C1_join_replays_history [OF s, of 5 "[world]"] s p
    by (simp add: i ChatSession_new_def socket_new_def)
qed

text \<open>
  C3. In every state of the room (its participants a set), \<open>deliver msg\<close> appends \<open>msg\<close>
  to the recent history (the excess is dropped at the front, so \<open>msg\<close> is its last entry)
  and enqueues \<open>msg\<close> at every participant, none skipped; sessions outside the room are
  untouched. The session that read the message is a participant like the others: when
  its body read completes, its own message is enqueued at it as well.
\<close>

theorem C3_deliver_broadcast:
  assumes "std_set (participants (room srv))"
  shows "recent_msgs (room (ChatRoom_deliver msg srv)) = pop_excess (recent_msgs (room srv) @ [msg]) \<and>
    last (recent_msgs (room (ChatRoom_deliver msg srv))) = msg \<and>
    participants (room (ChatRoom_deliver msg srv)) = participants (room srv) \<and>
    (\<forall>q \<in> set (participants (room srv)).
       write_msgs (sessions (ChatRoom_deliver msg srv) q) = write_msgs (sessions srv q) @ [msg]) \<and>
    (\<forall>q. q \<notin> set (participants (room srv)) \<longrightarrow>
       sessions (ChatRoom_deliver msg srv) q = sessions srv q) \<and>
    (this \<in> set (participants (room srv)) \<longrightarrow>
       write_msgs (sessions (handle_read_body False this srv) this) =
         write_msgs (sessions srv this) @ [read_msg (sessions srv this)])"
proof -
  have d: "distinct (participants (room srv))" using assms by (rule std_set_distinct)
  show ?thesis
    using d
    by (simp add: room_ChatRoom_deliver last_pop_excess_snoc sessions_ChatRoom_deliver
        write_msgs_ChatSession_deliver handle_read_body_def sessions_upd_session)
qed

theorem C3_deliver_broadcast_witness:
  "std_set (participants (room sample_server)) \<and>
   recent_msgs (room (ChatRoom_deliver world sample_server)) = [hello, world] \<and>
   write_msgs (sessions (ChatRoom_deliver world sample_server) 1) = [world] \<and>
   write_msgs (sessions (ChatRoom_deliver world sample_server) 2) = [world] \<and>
   sessions (ChatRoom_deliver world sample_server) 7 = ChatSession_new \<and>
   write_msgs (sessions (handle_read_body False 2 sample_server) 2) = [ChatMessage_new]"
proof -
  have s: "std_set (participants (room sample_server))"
    by (simp add: sample_server_def std_set_def)
  have i: "sessions sample_server = (\<lambda>p. ChatSession_new)"
    "recent_msgs (room sample_server) = [hello]"
    "participants (room sample_server) = [1, 2]"
    by (simp_all add: sample_server_def)
  have e: "pop_excess [hello, world] = [hello, world]"
    by (simp add: pop_excess_drop max_recent_msgs_def)
  show ?thesis
    using C3_deliver_broadcast [OF s, of world 2] s
    by (simp add: i e ChatSession_new_def)
qed



section \<open>Claims about the outbound queue\<close>

text \<open>
  C4. For one connection, of the server or of the client, that starts with the front of
  its queue (if any) being written: after any sequence of enqueues and write completions,
  the frames on the wire followed by the frames still queued are the frames enqueued, in
  their order, each once; at most one write is outstanding. As long as no write has
  failed, the front of a non-empty queue is the frame being written, and letting the
  outstanding writes succeed empties the queue and leaves exactly the enqueued frames
  on the wire, in order. A failed write leaves the queue as it is; a successful one pops
  the front and, if frames remain, immediately starts writing the new front.
\<close>

theorem C4_outbound_queue_fifo:
  assumes "writes (socket (sessions srv p)) = take 1 (write_msgs (sessions srv p))"
    and "writes (c_socket c) = take 1 (c_write_msgs c)"
  shows
    "wire (socket (sessions (foldl (session_event p) srv es) p)) @
       write_msgs (sessions (foldl (session_event p) srv es) p) =
     wire (socket (sessions srv p)) @ write_msgs (sessions srv p) @ enqueued es \<and>
     length (writes (socket (sessions (foldl (session_event p) srv es) p))) \<le> 1 \<and>
     (Sent True \<notin> set es \<longrightarrow>
        writes (socket (sessions (foldl (session_event p) srv es) p)) =
          take 1 (write_msgs (sessions (foldl (session_event p) srv es) p)) \<and>
        session_view p (foldl (session_event p) srv
          (es @ replicate (length (write_msgs (sessions (foldl (session_event p) srv es) p)))
                  (Sent False))) =
          ([], [], wire (socket (sessions srv p)) @ write_msgs (sessions srv p) @ enqueued es)) \<and>
     write_msgs (sessions (handle_write True p srv) p) = write_msgs (sessions srv p) \<and>
     write_msgs (sessions (handle_write False p srv) p) = tl (write_msgs (sessions srv p)) \<and>
     (tl (write_msgs (sessions srv p)) \<noteq> [] \<longrightarrow>
        writes (socket (sessions (handle_write False p srv) p)) =
          writes (socket (sessions srv p)) @ [hd (tl (write_msgs (sessions srv p)))]) \<and>
     wire (c_socket (foldl client_event c es)) @ c_write_msgs (foldl client_event c es) =
       wire (c_socket c) @ c_write_msgs c @ enqueued es \<and>
     length (writes (c_socket (foldl client_event c es))) \<le> 1 \<and>
     (Sent True \<notin> set es \<longrightarrow>
        writes (c_socket (foldl client_event c es)) = take 1 (c_write_msgs (foldl client_event c es)) \<and>
        client_view (foldl client_event c
          (es @ replicate (length (c_write_msgs (foldl client_event c es))) (Sent False))) =
          ([], [], wire (c_socket c) @ c_write_msgs c @ enqueued es)) \<and>
     c_write_msgs (client_handle_write True c) = c_write_msgs c \<and>
     c_write_msgs (client_handle_write False c) = tl (c_write_msgs c) \<and>
     (tl (c_write_msgs c) \<noteq> [] \<longrightarrow>
        writes (c_socket (client_handle_write False c)) =
          writes (c_socket c) @ [hd (tl (c_write_msgs c))])"
proof -
  have hs: "head_in_flight (session_view p srv)"
    using assms(1) by (simp add: head_in_flight_def session_view_def)
  have hc: "head_in_flight (client_view c)"
    using assms(2) by (simp add: head_in_flight_def client_view_def)
  note fs = outq_facts [OF hs, of es, folded session_view_run]
  note fc = outq_facts [OF hc, of es, folded client_view_run]
  have s1: "wire (socket (sessions (foldl (session_event p) srv es) p)) @
       write_msgs (sessions (foldl (session_event p) srv es) p) =
     wire (socket (sessions srv p)) @ write_msgs (sessions srv p) @ enqueued es"
    using fs(1) by (simp add: all_frames_def session_view_def)
  have s2: "length (writes (socket (sessions (foldl (session_event p) srv es) p))) \<le> 1"
    using fs(2) by (simp add: session_view_def)
  have s3: "writes (socket (sessions (foldl (session_event p) srv es) p)) =
          take 1 (write_msgs (sessions (foldl (session_event p) srv es) p))"
    if "Sent True \<notin> set es"
    using fs(3) [OF that] by (simp add: head_in_flight_def session_view_def)
  have s4: "session_view p (foldl (session_event p) srv
          (es @ replicate (length (write_msgs (sessions (foldl (session_event p) srv es) p)))
                  (Sent False))) =
          ([], [], wire (socket (sessions srv p)) @ write_msgs (sessions srv p) @ enqueued es)"
    if "Sent True \<notin> set es"
  proof -
    have q: "fst (foldl outq_step (session_view p srv) es) =
        write_msgs (sessions (foldl (session_event p) srv es) p)"
      unfolding session_view_run [symmetric] by (simp add: session_view_def)
    have a: "all_frames (session_view p srv) =
        wire (socket (sessions srv p)) @ write_msgs (sessions srv p)"
      by (simp add: all_frames_def session_view_def)
    show ?thesis
      using outq_facts(4) [OF hs that] by (simp only: session_view_run q a append_assoc)
  qed
  have s5: "write_msgs (sessions (handle_write True p srv) p) = write_msgs (sessions srv p)"
    by (simp add: sessions_handle_write_error)
  have s6: "write_msgs (sessions (handle_write False p srv) p) = tl (write_msgs (sessions srv p))"
    by (simp add: handle_write_def sessions_upd_session Let_def)
  have s7: "writes (socket (sessions (handle_write False p srv) p)) =
          writes (socket (sessions srv p)) @ [hd (tl (write_msgs (sessions srv p)))]"
    if "tl (write_msgs (sessions srv p)) \<noteq> []"
    using that by (simp add: handle_write_def sessions_upd_session Let_def async_write_def)
  have c1: "wire (c_socket (foldl client_event c es)) @ c_write_msgs (foldl client_event c es) =
       wire (c_socket c) @ c_write_msgs c @ enqueued es"
    using fc(1) by (simp add: all_frames_def client_view_def)
  have c2: "length (writes (c_socket (foldl client_event c es))) \<le> 1"
    using fc(2) by (simp add: client_view_def)
  have c3: "writes (c_socket (foldl client_event c es)) = take 1 (c_write_msgs (foldl client_event c es))"
    if "Sent True \<notin> set es"
    using fc(3) [OF that] by (simp add: head_in_flight_def client_view_def)
  have c4: "client_view (foldl client_event c
          (es @ replicate (length (c_write_msgs (foldl client_event c es))) (Sent False))) =
          ([], [], wire (c_socket c) @ c_write_msgs c @ enqueued es)"
    if "Sent True \<notin> set es"
  proof -
    have q: "fst (foldl outq_step (client_view c) es) = c_write_msgs (foldl client_event c es)"
      unfolding client_view_run [symmetric] by (simp add: client_view_def)
    have a: "all_frames (client_view c) = wire (c_socket c) @ c_write_msgs c"
      by (simp add: all_frames_def client_view_def)
    show ?thesis
      using outq_facts(4) [OF hc that] by (simp only: client_view_run q a append_assoc)
  qed
  have c5: "c_write_msgs (client_handle_write True c) = c_write_msgs c"
    by (simp add: client_handle_write_def do_close_def)
  have c6: "c_write_msgs (client_handle_write False c) = tl (c_write_msgs c)"
    by (simp add: client_handle_write_def Let_def)
  have c7: "writes (c_socket (client_handle_write False c)) =
          writes (c_socket c) @ [hd (tl (c_write_msgs c))]"
    if "tl (c_write_msgs c) \<noteq> []"
    using that by (simp add: client_handle_write_def Let_def async_write_def)
  from s1 s2 s3 s4 s5 s6 s7 c1 c2 c3 c4 c5 c6 c7 show ?thesis by blast
qed

theorem C4_outbound_queue_fifo_witness:
  "writes (socket (sessions sample_server 1)) = take 1 (write_msgs (sessions sample_server 1)) \<and>
   writes (c_socket ChatClient_new) = take 1 (c_write_msgs ChatClient_new) \<and>
   session_view 1 (foldl (session_event 1) sample_server [Enqueue hello, Enqueue world, Sent False]) =
     ([world], [world], [hello]) \<and>
   session_view 1 (foldl (session_event 1) sample_server
       [Enqueue hello, Enqueue world, Sent False, Sent False]) = ([], [], [hello, world]) \<and>
   client_view (foldl client_event ChatClient_new [Enqueue hello, Enqueue world, Sent False]) =
     ([world], [world], [hello]) \<and>
   client_view (foldl client_event ChatClient_new
       [Enqueue hello, Enqueue world, Sent False, Sent False]) = ([], [], [hello, world])"
proof -
  have s: "writes (socket (sessions sample_server 1)) = take 1 (write_msgs (sessions sample_server 1))"
    by (simp add: sample_server_def ChatSession_new_def socket_new_def)
  have c: "writes (c_socket ChatClient_new) = take 1 (c_write_msgs ChatClient_new)"
    by (simp add: ChatClient_new_def socket_new_def)
  have vs: "session_view 1 sample_server = ([], [], [])"
    by (simp add: session_view_def sample_server_def ChatSession_new_def socket_new_def)
  have vc: "client_view ChatClient_new = ([], [], [])"
    by (simp add: client_view_def ChatClient_new_def socket_new_def)
  have e: "session_view 1 (foldl (session_event 1) sample_server
        [Enqueue hello, Enqueue world, Sent False]) = ([world], [world], [hello])"
      "client_view (foldl client_event ChatClient_new
        [Enqueue hello, Enqueue world, Sent False]) = ([world], [world], [hello])"
    by (simp_all only: session_view_run client_view_run vs vc) simp_all
  have n: "Sent True \<notin> set [Enqueue hello, Enqueue world, Sent False]" by simp
  have l: "length (write_msgs (sessions (foldl (session_event 1) sample_server
        [Enqueue hello, Enqueue world, Sent False]) 1)) = 1"
      "length (c_write_msgs (foldl client_event ChatClient_new
        [Enqueue hello, Enqueue world, Sent False])) = 1"
    using e by (simp_all add: session_view_def client_view_def)
  show ?thesis
    using C4_outbound_queue_fifo [OF s c, of "[Enqueue hello, Enqueue world, Sent False]"] s c e n l
    by (simp add: sample_server_def ChatSession_new_def ChatClient_new_def socket_new_def)
qed

section \<open>Claims about the client's console loop\<close>

text \<open>
  C9. With a header wide enough for the largest body length, every frame the console
  loop constructs is valid: its body length is the \<^verbatim>\<open>strlen\<close> of the line buffer, the
  buffer never holds more than \<open>mbl\<close> characters, the body has that length, the header has
  \<open>hl\<close> characters and decodes to the body length. A line of at most \<open>mbl\<close> characters
  that ends in a newline becomes one frame, and the loop goes on with the rest of the
  input.
\<close>

theorem C9_console_frames_valid:
  assumes "0 < hl" and "mbl < 10 ^ hl"
  shows "map body_length (console_loop hl mbl inp) = map strlen (console_lines mbl inp False) \<and>
    (\<forall>l \<in> set (console_lines mbl inp False). strlen l \<le> length l \<and> length l \<le> mbl) \<and>
    (\<forall>m \<in> set (console_loop hl mbl inp).
       body_length m \<le> mbl \<and>
       length (body m) = body_length m \<and>
       length (header m) = hl \<and>
       decode_header mbl (header m) = Inr (body_length m)) \<and>
    (newline \<notin> set l \<and> length l \<le> mbl \<longrightarrow>
       console_loop hl mbl (l @ newline # rest) = make_message hl l # console_loop hl mbl rest)"
proof -
  have a: "map body_length (console_loop hl mbl inp) = map strlen (console_lines mbl inp False)"
    by (simp add: console_loop_def body_length_make_message)
  have b: "\<forall>l \<in> set (console_lines mbl inp False). strlen l \<le> length l \<and> length l \<le> mbl"
    by (simp add: strlen_le console_lines_length)
  have c: "\<forall>m \<in> set (console_loop hl mbl inp).
       body_length m \<le> mbl \<and> length (body m) = body_length m \<and> length (header m) = hl \<and>
       decode_header mbl (header m) = Inr (body_length m)"
  proof
    fix m assume "m \<in> set (console_loop hl mbl inp)"
    then obtain l where l: "l \<in> set (console_lines mbl inp False)" and m: "m = make_message hl l"
      by (auto simp: console_loop_def)
    have le: "strlen l \<le> mbl" using b l by (meson le_trans)
    have "decode_header mbl (encode_header hl (strlen l)) = Inr (strlen l)"
      using assms le by (rule decode_encode)
    with le m show "body_length m \<le> mbl \<and> length (body m) = body_length m \<and>
       length (header m) = hl \<and> decode_header mbl (header m) = Inr (body_length m)"
      using strlen_le [of l]
      by (simp add: body_length_make_message header_make_message body_make_message
          length_encode_header)
  qed
  have d: "newline \<notin> set l \<and> length l \<le> mbl \<longrightarrow>
       console_loop hl mbl (l @ newline # rest) = make_message hl l # console_loop hl mbl rest"
    by (simp add: console_loop_def console_lines_line)
  from a b c d show ?thesis by blast
qed

theorem C9_console_frames_valid_witness:
  "(0::nat) < 4 \<and> (512::nat) < 10 ^ 4 \<and>
   console_loop 4 512 (''hi'' @ newline # ''you'') =
     [\<lparr>header = ''   2'', body = ''hi'', body_length = 2\<rparr>,
      \<lparr>header = ''   3'', body = ''you'', body_length = 3\<rparr>] \<and>
   decode_header 512 ''   2'' = Inr 2 \<and>
   decode_header 512 ''   3'' = Inr 3"
proof -
  have h: "(0::nat) < 4" "(512::nat) < 10 ^ 4" by simp_all
  have e: "encode_header 4 2 = ''   2''" "encode_header 4 3 = ''   3''" by code_simp+
  have s: "strlen ''hi'' = 2" "strlen ''you'' = 3" by (simp_all add: strlen_def NUL_def)
  have l: "console_lines 512 ''you'' False = [''you'']"
    by (simp add: console_lines.simps newline_def)
  have m: "make_message 4 ''hi'' = \<lparr>header = ''   2'', body = ''hi'', body_length = 2\<rparr>"
    "make_message 4 ''you'' = \<lparr>header = ''   3'', body = ''you'', body_length = 3\<rparr>"
    by (simp_all add: make_message_def Let_def set_body_length_def ChatMessage_new_def
        ChatMessage_encode_header_def s e)
  have n: "newline \<notin> set ''hi'' \<and> length ''hi'' \<le> (512::nat)" by (simp add: newline_def)
  have c: "console_loop 4 512 ''you'' = [make_message 4 ''you'']"
    by (simp add: console_loop_def l)
  note t = C9_console_frames_valid [OF h, of "''hi'' @ newline # ''you''" "''hi''" "''you''"]
  have cl: "console_loop 4 512 (''hi'' @ newline # ''you'') =
     [\<lparr>header = ''   2'', body = ''hi'', body_length = 2\<rparr>,
      \<lparr>header = ''   3'', body = ''you'', body_length = 3\<rparr>]"
    using t n c m by simp
  have "\<forall>m \<in> set (console_loop 4 512 (''hi'' @ newline # ''you'')).
      decode_header 512 (header m) = Inr (body_length m)"
    using t by blast
  then have "decode_header 512 ''   2'' = Inr 2 \<and> decode_header 512 ''   3'' = Inr 3"
    unfolding cl by simp
  with cl show ?thesis by simp
qed


section \<open>Claims about the session's read path and the process\<close>

text \<open>
  C6, as stated, fails: a session whose read fails while one of its writes is
  outstanding keeps its outbound queue and its socket. In \<open>busy_server\<close> the session has
  two frames queued and the first being written; after the completion of its failed read
  both frames are still queued, the write is still outstanding, and the socket is open
  and has not been closed; when the write then succeeds, the second frame is written.
\<close>

theorem C6_read_failure_counterexample:
  "reads (socket (sessions busy_server 0)) = [ReadHeader] \<and>
   write_msgs (sessions (server_step 512 busy_server (ReadDone 0 Failed)) 0) = [hello, world] \<and>
   writes (socket (sessions (server_step 512 busy_server (ReadDone 0 Failed)) 0)) = [hello] \<and>
   is_open (socket (sessions (server_step 512 busy_server (ReadDone 0 Failed)) 0)) \<and>
   closes (socket (sessions (server_step 512 busy_server (ReadDone 0 Failed)) 0)) = 0 \<and>
   session_view 0
     (server_step 512 (server_step 512 busy_server (ReadDone 0 Failed)) (WriteDone 0 False)) =
     ([world], [world], [hello])"
  by (simp add: server_step_def read_complete_Failed busy_session busy_room busy_new_session
      write_complete_def handle_write_def release_def owned_def ChatRoom_leave_def
      upd_session_def upd_room_def session_view_def async_write_def set_erase_def)

text \<open>
  C6, amended. In every state the server reaches, when a read of a session fails or a
  header fails to decode, the session leaves the room (the room is unchanged if it was
  no participant), no read is issued in place of the failed one, and no other session
  and no history changes. If no write of the session is outstanding, the session is
  destroyed with the return of the handler: its queue is dropped and its socket is
  closed, for the first and only time, and no completion changes the session again. If
  a write is outstanding, the session lives on with its queue, its outstanding write and
  its open socket. The completion of that write destroys the session (queue dropped,
  socket closed once) when the write failed or the queue is drained; otherwise it puts
  the frame on the wire and starts writing the next one.
\<close>

theorem C6_read_failure_closes_session:
  assumes run: "srv = foldl (server_step mbl) (ChatServer_new endpoint) cs"
    and rd: "reads (socket (sessions srv this)) \<noteq> []"
    and fl: "read_fails mbl res this srv"
  shows "set (participants (room (server_step mbl srv (ReadDone this res)))) =
      set (participants (room srv)) - {this} \<and>
    recent_msgs (room (server_step mbl srv (ReadDone this res))) = recent_msgs (room srv) \<and>
    reads (socket (sessions (server_step mbl srv (ReadDone this res)) this)) = [] \<and>
    (\<forall>q. q \<noteq> this \<longrightarrow> sessions (server_step mbl srv (ReadDone this res)) q = sessions srv q) \<and>
    (writes (socket (sessions srv this)) = [] \<longrightarrow>
       write_msgs (sessions (server_step mbl srv (ReadDone this res)) this) = [] \<and>
       \<not> is_open (socket (sessions (server_step mbl srv (ReadDone this res)) this)) \<and>
       closes (socket (sessions (server_step mbl srv (ReadDone this res)) this)) = 1 \<and>
       server_step mbl (server_step mbl srv (ReadDone this res)) (ReadDone this res') =
         server_step mbl srv (ReadDone this res) \<and>
       server_step mbl (server_step mbl srv (ReadDone this res)) (WriteDone this error) =
         server_step mbl srv (ReadDone this res)) \<and>
    (writes (socket (sessions srv this)) \<noteq> [] \<longrightarrow>
       session_view this (server_step mbl srv (ReadDone this res)) = session_view this srv \<and>
       is_open (socket (sessions (server_step mbl srv (ReadDone this res)) this)) \<and>
       closes (socket (sessions (server_step mbl srv (ReadDone this res)) this)) = 0 \<and>
       (error \<or> tl (write_msgs (sessions srv this)) = [] \<longrightarrow>
          write_msgs (sessions (server_step mbl (server_step mbl srv (ReadDone this res))
              (WriteDone this error)) this) = [] \<and>
          \<not> is_open (socket (sessions (server_step mbl (server_step mbl srv (ReadDone this res))
              (WriteDone this error)) this)) \<and>
          closes (socket (sessions (server_step mbl (server_step mbl srv (ReadDone this res))
              (WriteDone this error)) this)) = 1) \<and>
       (\<not> error \<and> tl (write_msgs (sessions srv this)) \<noteq> [] \<longrightarrow>
          session_view this (server_step mbl (server_step mbl srv (ReadDone this res))
              (WriteDone this error)) =
            (tl (write_msgs (sessions srv this)), [hd (tl (write_msgs (sessions srv this)))],
             wire (socket (sessions srv this)) @ [hd (write_msgs (sessions srv this))]) \<and>
          is_open (socket (sessions (server_step mbl (server_step mbl srv (ReadDone this res))
              (WriteDone this error)) this)) \<and>
          closes (socket (sessions (server_step mbl (server_step mbl srv (ReadDone this res))
              (WriteDone this error)) this)) = 0))"
proof -
  let ?s = "server_step mbl srv (ReadDone this res)"
  have i1: "one_read srv" and i2: "live_open srv" and i3: "one_write srv"
    unfolding run by (rule one_read_reachable live_open_reachable one_write_reachable)+
  have "length (reads (socket (sessions srv this))) \<le> 1" using i1 by (simp add: one_read_def)
  with rd obtain op where r: "reads (socket (sessions srv this)) = [op]"
    by (cases "reads (socket (sessions srv this))") auto
  have n: "new_session srv \<noteq> this" using i1 rd by (auto simp: one_read_def)
  have "busy this srv" using rd by (simp add: busy_def)
  with i2 have o: "is_open (socket (sessions srv this))" and c: "closes (socket (sessions srv this)) = 0"
    using live_open_busy by blast+
  note f = read_fails_step [OF fl r n]
  have p: "this \<notin> set (participants (room ?s))" by (simp add: f(1))
  have ns: "new_session ?s \<noteq> this"
    using n by (simp add: server_step_def new_session_release new_session_read_complete)
  have a: "(\<forall>q. q \<noteq> this \<longrightarrow> sessions ?s q = sessions srv q)" using f(4) by blast
  have d: "write_msgs (sessions ?s this) = [] \<and> \<not> is_open (socket (sessions ?s this)) \<and>
       closes (socket (sessions ?s this)) = 1 \<and>
       server_step mbl ?s (ReadDone this res') = ?s \<and>
       server_step mbl ?s (WriteDone this error) = ?s"
    if w: "writes (socket (sessions srv this)) = []"
  proof -
    from f(5) [OF w] have u: "\<not> owned this ?s" and q: "write_msgs (sessions ?s this) = []"
      and x: "\<not> is_open (socket (sessions ?s this))"
      and y: "closes (socket (sessions ?s this)) = 1"
      using o c by simp_all
    from q x y destroyed_final [OF u q x] show ?thesis by simp
  qed
  have k: "session_view this ?s = session_view this srv \<and> is_open (socket (sessions ?s this)) \<and>
       closes (socket (sessions ?s this)) = 0 \<and>
       (error \<or> tl (write_msgs (sessions srv this)) = [] \<longrightarrow>
          write_msgs (sessions (server_step mbl ?s (WriteDone this error)) this) = [] \<and>
          \<not> is_open (socket (sessions (server_step mbl ?s (WriteDone this error)) this)) \<and>
          closes (socket (sessions (server_step mbl ?s (WriteDone this error)) this)) = 1) \<and>
       (\<not> error \<and> tl (write_msgs (sessions srv this)) \<noteq> [] \<longrightarrow>
          session_view this (server_step mbl ?s (WriteDone this error)) =
            (tl (write_msgs (sessions srv this)), [hd (tl (write_msgs (sessions srv this)))],
             wire (socket (sessions srv this)) @ [hd (write_msgs (sessions srv this))]) \<and>
          is_open (socket (sessions (server_step mbl ?s (WriteDone this error)) this)) \<and>
          closes (socket (sessions (server_step mbl ?s (WriteDone this error)) this)) = 0)"
    if w: "writes (socket (sessions srv this)) \<noteq> []"
  proof -
    from f(6) [OF w] have v: "session_view this ?s = session_view this srv"
      and x: "is_open (socket (sessions ?s this))" and y: "closes (socket (sessions ?s this)) = 0"
      using o c by simp_all
    have "front_written (sessions srv this)" using i3 by (simp add: one_write_def)
    with w have w1: "writes (socket (sessions srv this)) = [hd (write_msgs (sessions srv this))]"
      by (simp add: front_written_def)
    from v have e: "write_msgs (sessions ?s this) = write_msgs (sessions srv this)"
      "writes (socket (sessions ?s this)) = writes (socket (sessions srv this))"
      "wire (socket (sessions ?s this)) = wire (socket (sessions srv this))"
      by (simp_all add: session_view_def)
    note l = last_write_step [OF p f(3) ns, of "hd (write_msgs (sessions srv this))" error mbl,
        unfolded e, OF w1]
    from v x y l show ?thesis by simp
  qed
  from f(1) f(2) f(3) a d k show ?thesis by blast
qed


theorem C6_read_failure_closes_session_witness:
  "reads (socket (sessions idle_server 0)) \<noteq> [] \<and>
   read_fails 512 (Done ''12a4'') 0 idle_server \<and>
   participants (room idle_server) = [0] \<and>
   participants (room (server_step 512 idle_server (ReadDone 0 (Done ''12a4'')))) = [] \<and>
   reads (socket (sessions (server_step 512 idle_server (ReadDone 0 (Done ''12a4''))) 0)) = [] \<and>
   write_msgs (sessions (server_step 512 idle_server (ReadDone 0 (Done ''12a4''))) 0) = [] \<and>
   \<not> is_open (socket (sessions (server_step 512 idle_server (ReadDone 0 (Done ''12a4''))) 0)) \<and>
   closes (socket (sessions (server_step 512 idle_server (ReadDone 0 (Done ''12a4''))) 0)) = 1 \<and>
   reads (socket (sessions busy_server 0)) \<noteq> [] \<and>
   read_fails 512 Failed 0 busy_server \<and>
   session_view 0 (server_step 512 busy_server (ReadDone 0 Failed)) = ([hello, world], [hello], []) \<and>
   is_open (socket (sessions (server_step 512 busy_server (ReadDone 0 Failed)) 0)) \<and>
   session_view 0
     (server_step 512 (server_step 512 busy_server (ReadDone 0 Failed)) (WriteDone 0 False)) =
     ([world], [world], [hello]) \<and>
   \<not> is_open (socket (sessions
     (server_step 512 (server_step 512 busy_server (ReadDone 0 Failed)) (WriteDone 0 True)) 0)) \<and>
   write_msgs (sessions
     (server_step 512 (server_step 512 busy_server (ReadDone 0 Failed)) (WriteDone 0 True)) 0) = []"
proof -
  have d: "decode_header 512 ''12a4'' = Inl InvalidHeader" by code_simp
  have ri: "reads (socket (sessions idle_server 0)) \<noteq> []" by (simp add: idle_session)
  have fi: "read_fails 512 (Done ''12a4'') 0 idle_server"
    by (simp add: read_fails_def idle_session d)
  have rb: "reads (socket (sessions busy_server 0)) \<noteq> []" by (simp add: busy_session)
  have fb: "read_fails 512 Failed 0 busy_server" by (simp add: read_fails_def)
  have pi: "participants (room (server_step 512 idle_server (ReadDone 0 (Done ''12a4'')))) = []"
    using read_complete_bad_header [of idle_server 0 "[]" 512 "''12a4''"] d
    by (simp add: server_step_def room_release idle_session idle_room room_ChatRoom_leave
        room_upd_session set_erase_def)
  have vb: "session_view 0 busy_server = ([hello, world], [hello], [])"
    by (simp add: session_view_def busy_session)
  note ti = C6_read_failure_closes_session [OF idle_server_def ri fi, of Failed False]
  note tb = C6_read_failure_closes_session [OF busy_server_def rb fb, of Failed False]
  note tc = C6_read_failure_closes_session [OF busy_server_def rb fb, of Failed True]
  show ?thesis
    using ti tb tc ri fi rb fb pi vb
    by (simp add: idle_session idle_room busy_session)
qed

text \<open>
  C8, as stated, fails: the server's \<open>main\<close> creates one \<open>ChatServer\<close>, with a room of its
  own, per port argument. Started with two ports the process has two rooms; the
  connection accepted on the second port is a participant of the second room only and
  does not receive what is delivered in the first.
\<close>

theorem C8_one_room_counterexample:
  "server_main [8000, 8001] = Inr [ChatServer_new 8000, ChatServer_new 8001] \<and>
   length two_port_run = 2 \<and>
   participants (room (two_port_run ! 0)) = [0] \<and>
   participants (room (two_port_run ! 1)) = [0] \<and>
   recent_msgs (room (two_port_run ! 0)) = [hello] \<and>
   recent_msgs (room (two_port_run ! 1)) = [] \<and>
   write_msgs (sessions (two_port_run ! 0) 0) = [hello] \<and>
   write_msgs (sessions (two_port_run ! 1) 0) = [] \<and>
   room (two_port_run ! 0) \<noteq> room (two_port_run ! 1)"
  by (simp add: server_main_def two_port_run_def io_service_run_def process_step_def step_defs
      decode_header_5 pop_excess_short hello_def)

text \<open>
  C8, amended. A server process has one room per port argument (one \<open>ChatServer\<close> each,
  in the order of the arguments), and their number never changes while the reactor
  runs; started with one port it has exactly one. A connection accepted by a server
  joins that server's room, and no event for one server changes another server.
\<close>

theorem C8_one_room_per_port:
  "(server_main ports = Inr servers \<longrightarrow>
      length servers = length ports \<and>
      (\<forall>i. i < length ports \<longrightarrow> servers ! i = ChatServer_new (ports ! i))) \<and>
   server_main [port] = Inr [ChatServer_new port] \<and>
   length (io_service_run mbl servers es) = length servers \<and>
   (i < length servers \<longrightarrow>
      new_session (servers ! i) \<in>
        set (participants (room (process_step mbl servers (i, Accepted False) ! i)))) \<and>
   (j \<noteq> i \<longrightarrow> process_step mbl servers (i, c) ! j = servers ! j)"
proof -
  have a: "server_main ports = Inr servers \<longrightarrow>
      length servers = length ports \<and>
      (\<forall>i. i < length ports \<longrightarrow> servers ! i = ChatServer_new (ports ! i))"
    by (auto simp: server_main_def split: if_splits)
  have b: "i < length servers \<longrightarrow>
      new_session (servers ! i) \<in>
        set (participants (room (process_step mbl servers (i, Accepted False) ! i)))"
    by (simp add: process_step_same server_step_def accept_complete_joins room_release)
  from a b show ?thesis
    by (simp add: length_io_service_run process_step_other server_main_def)
qed

theorem C8_one_room_per_port_witness:
  "server_main [8000, 8001] = Inr [ChatServer_new 8000, ChatServer_new 8001] \<and>
   length [ChatServer_new 8000, ChatServer_new 8001] = length [8000, 8001 :: nat] \<and>
   (1::nat) < length [ChatServer_new 8000, ChatServer_new 8001] \<and>
   new_session (ChatServer_new 8001) = 0 \<and>
   0 \<in> set (participants (room
     (process_step 512 [ChatServer_new 8000, ChatServer_new 8001] (1, Accepted False) ! 1))) \<and>
   process_step 512 [ChatServer_new 8000, ChatServer_new 8001] (1, Accepted False) ! 0 =
     ChatServer_new 8000"
proof -
  have m: "server_main [8000, 8001] = Inr [ChatServer_new 8000, ChatServer_new 8001]"
    by (simp add: server_main_def)
  have n: "new_session (ChatServer_new 8001) = 0"
    by (simp add: ChatServer_new_def start_accept_def)
  show ?thesis
    using C8_one_room_per_port [of "[8000, 8001]" "[ChatServer_new 8000, ChatServer_new 8001]"
        8000 512 "[]" 1 0 "Accepted False"] m n
    by simp
qed


end
